theory Spec2Isabelle
  imports Main
begin

section \<open>Go integers\<close>

text \<open>
  Page numbers are Go \<open>int\<close> values, taken here as 64 bits wide (the width on every
  64-bit target). A value is an \<open>int\<close> in the range of \<open>int64\<close>; addition,
  subtraction and multiplication wrap around (\<open>wrap64\<close>), and \<open>/\<close> truncates towards
  zero (\<open>quo\<close>).
\<close>

definition int64 :: "int \<Rightarrow> bool" where
  "int64 x = (- (2 ^ 63) \<le> x \<and> x < 2 ^ 63)"

definition wrap64 :: "int \<Rightarrow> int" where
  "wrap64 x = (x + 2 ^ 63) mod 2 ^ 64 - 2 ^ 63"

definition quo :: "int \<Rightarrow> int \<Rightarrow> int" where
  "quo a b = sgn a * sgn b * (\<bar>a\<bar> div \<bar>b\<bar>)"

section \<open>Probes, errors and results\<close>

text \<open>
  A \<open>PageChecker\<close> is the probe with its context argument already supplied: for a page it
  answers with an error (\<open>Inl\<close>) or with \<open>hasData\<close> (\<open>Inr\<close>). The context is the state
  of \<open>ctx.Done()\<close> during the call: \<open>None\<close> while it is open, \<open>Some e\<close> once it is
  closed with \<open>ctx.Err() = e\<close>.
\<close>

type_synonym 'e PageChecker = "int \<Rightarrow> 'e + bool"

datatype ctx_error = Canceled | DeadlineExceeded

type_synonym ctx_state = "ctx_error option"

text \<open>
  \<open>Wrapped msg e\<close> is \<open>fmt.Errorf(msg ++ "%w", e)\<close>. \<open>Returned v\<close> is the Go result
  \<open>(v, nil)\<close>, \<open>Failed e\<close> the result \<open>(0, e)\<close>. Every loop carries a bound on its
  number of iterations; \<open>OutOfFuel\<close> says that the bound was reached before the loop
  ended. Each function also gives back the pages it probed, in order.
\<close>

datatype 'e failure =
    ProbeError 'e
  | ContextError ctx_error
  | Wrapped string "'e failure"

datatype 'e outcome = Returned int | Failed "'e failure" | OutOfFuel

definition probed :: "int \<Rightarrow> 'a \<times> int list \<Rightarrow> 'a \<times> int list" where
  "probed p r = (fst r, p # snd r)"

section \<open>The sequential finder\<close>

fun findUpperBound_loop ::
  "nat \<Rightarrow> 'e PageChecker \<Rightarrow> int \<Rightarrow> int \<Rightarrow> 'e outcome \<times> int list" where
  "findUpperBound_loop 0 checker maxPage page = (OutOfFuel, [])"
| "findUpperBound_loop (Suc fuel) checker maxPage page =
     (if page < maxPage then
        (let nextPage = wrap64 (page * 2);
             nextPage = (if nextPage > maxPage then maxPage else nextPage)
         in case checker nextPage of
              Inl err \<Rightarrow> (Failed (ProbeError err), [nextPage])
            | Inr hasData \<Rightarrow>
                if \<not> hasData then (Returned nextPage, [nextPage])
                else probed nextPage (findUpperBound_loop fuel checker maxPage nextPage))
      else (Returned maxPage, []))"

definition findUpperBound ::
  "nat \<Rightarrow> 'e PageChecker \<Rightarrow> int \<Rightarrow> 'e outcome \<times> int list" where
  "findUpperBound fuel checker maxPage = findUpperBound_loop fuel checker maxPage 1"

fun binarySearch_loop ::
  "nat \<Rightarrow> ctx_state \<Rightarrow> 'e PageChecker \<Rightarrow> int \<Rightarrow> int \<Rightarrow> int \<Rightarrow> 'e outcome \<times> int list" where
  "binarySearch_loop 0 ctx checker left right lastValidPage = (OutOfFuel, [])"
| "binarySearch_loop (Suc fuel) ctx checker left right lastValidPage =
     (if left \<le> right then
        (case ctx of
           Some cerr \<Rightarrow> (Failed (ContextError cerr), [])
         | None \<Rightarrow>
             (let mid = wrap64 (left + quo (wrap64 (right - left)) 2)
              in case checker mid of
                   Inl err \<Rightarrow> (Failed (ProbeError err), [mid])
                 | Inr hasData \<Rightarrow>
                     if hasData
                     then probed mid
                            (binarySearch_loop fuel ctx checker (wrap64 (mid + 1)) right mid)
                     else probed mid
                            (binarySearch_loop fuel ctx checker left (wrap64 (mid - 1))
                               lastValidPage)))
      else (Returned lastValidPage, []))"

definition binarySearch ::
  "nat \<Rightarrow> ctx_state \<Rightarrow> 'e PageChecker \<Rightarrow> int \<Rightarrow> int \<Rightarrow> 'e outcome \<times> int list" where
  "binarySearch fuel ctx checker left right =
     binarySearch_loop fuel ctx checker left right left"

definition defaultMaxPage :: "int \<Rightarrow> int" where
  "defaultMaxPage maxPage = (if maxPage \<le> 0 then 100000 else maxPage)"

definition FindTotalPages ::
  "nat \<Rightarrow> ctx_state \<Rightarrow> 'e PageChecker \<Rightarrow> int \<Rightarrow> 'e outcome \<times> int list" where
  "FindTotalPages fuel ctx checker maxPage0 =
     (let maxPage = defaultMaxPage maxPage0
      in case checker 1 of
           Inl err \<Rightarrow> (Failed (Wrapped ''failed to check page 1: '' (ProbeError err)), [1])
         | Inr hasData \<Rightarrow>
             if \<not> hasData then (Returned 0, [1])
             else
               (let (res, tr) = findUpperBound fuel checker maxPage
                in case res of
                     Failed err \<Rightarrow>
                       (Failed (Wrapped ''failed to find upper bound: '' err), 1 # tr)
                   | OutOfFuel \<Rightarrow> (OutOfFuel, 1 # tr)
                   | Returned upperBound \<Rightarrow>
                       if upperBound = maxPage then (Returned maxPage, 1 # tr)
                       else
                         (let (res', tr') =
                                binarySearch fuel ctx checker (quo upperBound 2) upperBound
                          in case res' of
                               Failed err \<Rightarrow>
                                 (Failed (Wrapped ''binary search failed: '' err), 1 # tr @ tr')
                             | OutOfFuel \<Rightarrow> (OutOfFuel, 1 # tr @ tr')
                             | Returned lastPage \<Rightarrow> (Returned lastPage, 1 # tr @ tr'))))"

section \<open>The concurrent finder\<close>

fun findUpperBoundConcurrent_loop ::
  "nat \<Rightarrow> 'e PageChecker \<Rightarrow> int \<Rightarrow> int \<Rightarrow> 'e outcome \<times> int list" where
  "findUpperBoundConcurrent_loop 0 checker maxPage page = (OutOfFuel, [])"
| "findUpperBoundConcurrent_loop (Suc fuel) checker maxPage page =
     (if page < maxPage then
        (let nextPage = wrap64 (page * 2);
             nextPage = (if nextPage > maxPage then maxPage else nextPage)
         in case checker nextPage of
              Inl err \<Rightarrow> (Failed (ProbeError err), [nextPage])
            | Inr hasData \<Rightarrow>
                if \<not> hasData then (Returned nextPage, [nextPage])
                else probed nextPage
                       (findUpperBoundConcurrent_loop fuel checker maxPage nextPage))
      else (Returned maxPage, []))"

definition findUpperBoundConcurrent ::
  "nat \<Rightarrow> 'e PageChecker \<Rightarrow> int \<Rightarrow> 'e outcome \<times> int list" where
  "findUpperBoundConcurrent fuel checker maxPage =
     findUpperBoundConcurrent_loop fuel checker maxPage 1"

text \<open>
  The linear scan of a small window:
  \<open>for page := right; page >= left; page-- { ... }; return lastValidPage, nil\<close>.
\<close>

fun scanDown ::
  "nat \<Rightarrow> 'e PageChecker \<Rightarrow> int \<Rightarrow> int \<Rightarrow> int \<Rightarrow> 'e outcome \<times> int list" where
  "scanDown 0 checker left lastValidPage page = (OutOfFuel, [])"
| "scanDown (Suc fuel) checker left lastValidPage page =
     (if page \<ge> left then
        (case checker page of
           Inl err \<Rightarrow> (Failed (ProbeError err), [page])
         | Inr hasData \<Rightarrow>
             if hasData then (Returned page, [page])
             else probed page (scanDown fuel checker left lastValidPage (wrap64 (page - 1))))
      else (Returned lastValidPage, []))"

text \<open>
  One round starts two goroutines, for \<open>mid1\<close> and \<open>mid2\<close>, waits for both and then reads
  their results from the channel in the order in which they arrived. That order is not
  determined by the program: it is the argument \<open>mid1First\<close> of \<open>arrivals\<close>, chosen for each
  round by a scheduler \<open>sched\<close>. \<open>collect\<close> is the loop \<open>for res := range results\<close>.
\<close>

type_synonym scheduler = "int \<Rightarrow> int \<Rightarrow> bool"

definition arrivals :: "bool \<Rightarrow> 'a \<Rightarrow> 'a \<Rightarrow> 'a list" where
  "arrivals mid1First r1 r2 = (if mid1First then [r1, r2] else [r2, r1])"

fun collect ::
  "int \<Rightarrow> int \<Rightarrow> (int \<times> ('e + bool)) list \<Rightarrow> bool \<Rightarrow> bool \<Rightarrow> 'e + bool \<times> bool" where
  "collect mid1 mid2 [] mid1HasData mid2HasData = Inr (mid1HasData, mid2HasData)"
| "collect mid1 mid2 ((page, Inl err) # rest) mid1HasData mid2HasData = Inl err"
| "collect mid1 mid2 ((page, Inr hasData) # rest) mid1HasData mid2HasData =
     (if page = mid1 then collect mid1 mid2 rest hasData mid2HasData
      else if page = mid2 then collect mid1 mid2 rest mid1HasData hasData
      else collect mid1 mid2 rest mid1HasData mid2HasData)"

fun binarySearchConcurrent_loop ::
  "nat \<Rightarrow> nat \<Rightarrow> scheduler \<Rightarrow> ctx_state \<Rightarrow> 'e PageChecker \<Rightarrow> int \<Rightarrow> int \<Rightarrow> int
     \<Rightarrow> 'e outcome \<times> int list" where
  "binarySearchConcurrent_loop 0 bound sched ctx checker left right lastValidPage =
     (OutOfFuel, [])"
| "binarySearchConcurrent_loop (Suc fuel) bound sched ctx checker left right lastValidPage =
     (if left \<le> right then
        (case ctx of
           Some cerr \<Rightarrow> (Failed (ContextError cerr), [])
         | None \<Rightarrow>
             if wrap64 (right - left) \<le> 3
             then scanDown bound checker left lastValidPage right
             else
               (let mid1 = wrap64 (left + quo (wrap64 (right - left)) 3);
                    mid2 = wrap64 (left + quo (wrap64 (2 * wrap64 (right - left))) 3);
                    results = arrivals (sched mid1 mid2)
                                (mid1, checker mid1) (mid2, checker mid2)
                in case collect mid1 mid2 results False False of
                     Inl err \<Rightarrow> (Failed (ProbeError err), [mid1, mid2])
                   | Inr (mid1HasData, mid2HasData) \<Rightarrow>
                       probed mid1 (probed mid2
                         (if mid2HasData
                          then binarySearchConcurrent_loop fuel bound sched ctx checker
                                 (wrap64 (mid2 + 1)) right mid2
                          else if mid1HasData
                          then binarySearchConcurrent_loop fuel bound sched ctx checker
                                 (wrap64 (mid1 + 1)) (wrap64 (mid2 - 1)) mid1
                          else binarySearchConcurrent_loop fuel bound sched ctx checker
                                 left (wrap64 (mid1 - 1)) lastValidPage))))
      else (Returned lastValidPage, []))"

definition binarySearchConcurrent ::
  "nat \<Rightarrow> scheduler \<Rightarrow> ctx_state \<Rightarrow> 'e PageChecker \<Rightarrow> int \<Rightarrow> int \<Rightarrow> 'e outcome \<times> int list" where
  "binarySearchConcurrent fuel sched ctx checker left right =
     binarySearchConcurrent_loop fuel fuel sched ctx checker left right left"

definition FindTotalPagesConcurrent ::
  "nat \<Rightarrow> scheduler \<Rightarrow> ctx_state \<Rightarrow> 'e PageChecker \<Rightarrow> int \<Rightarrow> 'e outcome \<times> int list" where
  "FindTotalPagesConcurrent fuel sched ctx checker maxPage0 =
     (let maxPage = defaultMaxPage maxPage0
      in case checker 1 of
           Inl err \<Rightarrow> (Failed (Wrapped ''failed to check page 1: '' (ProbeError err)), [1])
         | Inr hasData \<Rightarrow>
             if \<not> hasData then (Returned 0, [1])
             else
               (let (res, tr) = findUpperBoundConcurrent fuel checker maxPage
                in case res of
                     Failed err \<Rightarrow>
                       (Failed (Wrapped ''failed to find upper bound: '' err), 1 # tr)
                   | OutOfFuel \<Rightarrow> (OutOfFuel, 1 # tr)
                   | Returned upperBound \<Rightarrow>
                       if upperBound = maxPage then (Returned maxPage, 1 # tr)
                       else
                         (let (res', tr') =
                                binarySearchConcurrent fuel sched ctx checker
                                  (quo upperBound 2) upperBound
                          in case res' of
                               Failed err \<Rightarrow>
                                 (Failed (Wrapped ''binary search failed: '' err), 1 # tr @ tr')
                             | OutOfFuel \<Rightarrow> (OutOfFuel, 1 # tr @ tr')
                             | Returned lastPage \<Rightarrow> (Returned lastPage, 1 # tr @ tr'))))"

section \<open>The links adapter\<close>

record Link =
  Href :: string

record Links =
  Self :: Link
  Next :: Link
  Prev :: Link

definition CreatePageChecker :: "(int \<Rightarrow> 'e + Links) \<Rightarrow> 'e PageChecker" where
  "CreatePageChecker fetcher page =
     (case fetcher page of
        Inl err \<Rightarrow> Inl err
      | Inr links \<Rightarrow> Inr (Href (Self links) \<noteq> ''''))"

section \<open>Runs and their probe logs\<close>

text \<open>
  A run is clean when every probed page answered without error and the result is not a
  probe error; it is aborted when its last probe failed, every earlier one answered, and the
  result is that failure.
\<close>

definition cleanRun :: "'e PageChecker \<Rightarrow> 'e outcome \<times> int list \<Rightarrow> bool" where
  "cleanRun checker r =
     ((\<forall>q \<in> set (snd r). \<exists>b. checker q = Inr b) \<and> (\<forall>e. fst r \<noteq> Failed (ProbeError e)))"

definition abortedRun :: "'e PageChecker \<Rightarrow> 'e outcome \<times> int list \<Rightarrow> bool" where
  "abortedRun checker r =
     (\<exists>pre p e. snd r = pre @ [p] \<and> (\<forall>q \<in> set pre. \<exists>b. checker q = Inr b)
        \<and> checker p = Inl e \<and> fst r = Failed (ProbeError e))"

section \<open>Probes and inputs used in the examples\<close>

text \<open>The probe of the repository's tests: \<open>return page <= totalPages, nil\<close>.\<close>

definition pagesUpTo :: "int \<Rightarrow> string PageChecker" where
  "pagesUpTo totalPages page = Inr (page \<le> totalPages)"

text \<open>The same answers without the error component.\<close>

definition hasDataUpTo :: "int \<Rightarrow> int \<Rightarrow> bool" where
  "hasDataUpTo totalPages page = (page \<le> totalPages)"

text \<open>A probe over \<open>totalPages\<close> pages that fails at one page.\<close>

definition failingAt :: "int \<Rightarrow> string \<Rightarrow> int \<Rightarrow> string PageChecker" where
  "failingAt bad msg totalPages page =
     (if page = bad then Inl msg else Inr (page \<le> totalPages))"

text \<open>A probe over a collection that has data at every valid (positive) page.\<close>

definition positivePages :: "string PageChecker" where
  "positivePages page = Inr (1 \<le> page)"

definition mid1Always :: scheduler where
  "mid1Always mid1 mid2 = True"

definition linksWithSelf :: "string \<Rightarrow> Links" where
  "linksWithSelf h = \<lparr>Self = \<lparr>Href = h\<rparr>, Next = \<lparr>Href = ''''\<rparr>, Prev = \<lparr>Href = ''''\<rparr>\<rparr>"

definition fetchOnePage :: "int \<Rightarrow> string + Links" where
  "fetchOnePage page =
     (if page = 1 then Inr (linksWithSelf ''/api/v4/contacts?page=1'')
      else if page = 2 then Inr (linksWithSelf '''')
      else Inl ''no such page'')"

section \<open>Notions used in the statements\<close>

text \<open>An error-free probe is given by its \<open>hasData\<close> answers alone.\<close>

definition probeOf :: "(int \<Rightarrow> bool) \<Rightarrow> 'e PageChecker" where
  "probeOf hasData page = Inr (hasData page)"

text \<open>
  The probe contract of the specification, over the valid (positive) pages: once a page
  has no data, no later page has.
\<close>

definition monotoneProbe :: "(int \<Rightarrow> bool) \<Rightarrow> bool" where
  "monotoneProbe hasData = (\<forall>p q. 1 \<le> p \<longrightarrow> p < q \<longrightarrow> \<not> hasData p \<longrightarrow> \<not> hasData q)"



text \<open>
  The text of a page number (\<open>%d\<close>), and whether the message that a wrapper puts in front
  of an error contains it.
\<close>

definition digit :: "nat \<Rightarrow> char" where
  "digit n = ''0123456789'' ! n"

fun decimal :: "nat \<Rightarrow> string" where
  "decimal n = (if n < 10 then [digit n] else decimal (n div 10) @ [digit (n mod 10)])"

definition pageText :: "int \<Rightarrow> string" where
  "pageText page = (if page < 0 then CHR ''-'' # decimal (nat (- page)) else decimal (nat page))"

fun startsWith :: "string \<Rightarrow> string \<Rightarrow> bool" where
  "startsWith s [] = True"
| "startsWith [] (c # t) = False"
| "startsWith (d # s) (c # t) = (d = c \<and> startsWith s t)"

fun containsText :: "string \<Rightarrow> string \<Rightarrow> bool" where
  "containsText [] t = startsWith [] t"
| "containsText (d # s) t = (startsWith (d # s) t \<or> containsText s t)"

fun namesPage :: "'e failure \<Rightarrow> int \<Rightarrow> bool" where
  "namesPage (Wrapped msg f) page = containsText msg (pageText page)"
| "namesPage (ProbeError e) page = False"
| "namesPage (ContextError e) page = False"

section \<open>Arithmetic within the range of \<open>int64\<close>\<close>

declare decimal.simps [simp del]

lemma wrap64_id: "- (2 ^ 63) \<le> x \<Longrightarrow> x < 2 ^ 63 \<Longrightarrow> wrap64 x = x"
  by (simp add: wrap64_def)

lemma int64_wrap64: "int64 (wrap64 x)"
proof -
  have "0 \<le> (x + 2 ^ 63) mod (2 ^ 64 :: int)" "(x + 2 ^ 63) mod 2 ^ 64 < (2 ^ 64 :: int)"
    by simp_all
  then show ?thesis unfolding wrap64_def int64_def by simp
qed

lemma quo_nonneg: "0 \<le> a \<Longrightarrow> 0 < b \<Longrightarrow> quo a b = a div b"
  by (cases "a = 0") (simp_all add: quo_def)

lemma quo2_neg: "a < 0 \<Longrightarrow> a < quo a 2"
  unfolding quo_def by simp

lemma probed_simps [simp]: "fst (probed p r) = fst r" "snd (probed p r) = p # snd r"
  by (simp_all add: probed_def)

lemma findUpperBound_loop_pages:
  "p \<in> set (snd (findUpperBound_loop fuel checker maxPage page)) \<Longrightarrow> p \<le> maxPage"
proof (induction fuel arbitrary: page)
  case 0
  then show ?case by simp
next
  case (Suc fuel)
  then show ?case
    by (auto simp: Let_def split: if_splits sum.splits)
qed

lemma findUpperBound_loop_result:
  "fst (findUpperBound_loop fuel checker maxPage page) = Returned ub \<Longrightarrow> int64 maxPage \<Longrightarrow>
   ub \<le> maxPage \<and> int64 ub"
proof (induction fuel arbitrary: page)
  case 0
  then show ?case by simp
next
  case (Suc fuel)
  then show ?case
    by (auto simp: Let_def int64_wrap64 split: if_splits sum.splits)
qed

lemma binarySearch_loop_empty:
  "right < left \<Longrightarrow> snd (binarySearch_loop fuel ctx checker left right lvp) = []"
  by (cases fuel) simp_all

lemma binarySearch_loop_pages:
  "p \<in> set (snd (binarySearch_loop fuel ctx checker left right lvp)) \<Longrightarrow>
   0 \<le> left \<Longrightarrow> right < 2 ^ 63 - 1 \<Longrightarrow> left \<le> p \<and> p \<le> right"
proof (induction fuel arbitrary: left right lvp)
  case 0
  then show ?case by simp
next
  case (Suc fuel)
  show ?case
  proof (cases "left \<le> right")
    case False
    with Suc.prems show ?thesis by simp
  next
    case True
    define mid where "mid = left + (right - left) div 2"
    have d: "wrap64 (right - left) = right - left"
      using True Suc.prems by (intro wrap64_id; simp)
    have q: "quo (right - left) 2 = (right - left) div 2"
      using True by (simp add: quo_nonneg)
    have mid_range: "left \<le> mid" "mid \<le> right" using True by (simp_all add: mid_def)
    have m: "wrap64 (left + quo (wrap64 (right - left)) 2) = mid"
      unfolding d q mid_def[symmetric] using mid_range Suc.prems by (intro wrap64_id; simp)
    have up: "wrap64 (mid + 1) = mid + 1"
      using mid_range Suc.prems by (intro wrap64_id; simp)
    have dn: "wrap64 (mid - 1) = mid - 1"
      using mid_range Suc.prems by (intro wrap64_id; simp)
    show ?thesis
    proof (cases ctx)
      case (Some cerr)
      with Suc.prems True show ?thesis by simp
    next
      case None
      show ?thesis
      proof (cases "checker mid")
        case (Inl err)
        with Suc.prems True None m mid_range show ?thesis by (simp add: Let_def)
      next
        case (Inr hasData)
        show ?thesis
        proof (cases hasData)
          case True
          with Suc.prems \<open>left \<le> right\<close> None m Inr up
          have "p = mid \<or> p \<in> set (snd (binarySearch_loop fuel ctx checker (mid + 1) right mid))"
            by (simp add: Let_def)
          then show ?thesis
          proof
            assume "p = mid" with mid_range show ?thesis by simp
          next
            assume "p \<in> set (snd (binarySearch_loop fuel ctx checker (mid + 1) right mid))"
            from Suc.IH[OF this] mid_range Suc.prems show ?thesis by linarith
          qed
        next
          case False
          with Suc.prems \<open>left \<le> right\<close> None m Inr dn
          have "p = mid \<or> p \<in> set (snd (binarySearch_loop fuel ctx checker left (mid - 1) lvp))"
            by (simp add: Let_def)
          then show ?thesis
          proof
            assume "p = mid" with mid_range show ?thesis by simp
          next
            assume "p \<in> set (snd (binarySearch_loop fuel ctx checker left (mid - 1) lvp))"
            from Suc.IH[OF this] mid_range Suc.prems show ?thesis by linarith
          qed
        qed
      qed
    qed
  qed
qed


lemma scanDown_step:
  assumes "0 \<le> left" "left \<le> page" "page < 2 ^ 63"
  shows "scanDown (Suc fuel) checker left lvp page =
     (case checker page of
        Inl err \<Rightarrow> (Failed (ProbeError err), [page])
      | Inr hasData \<Rightarrow>
          if hasData then (Returned page, [page])
          else probed page (scanDown fuel checker left lvp (page - 1)))"
proof -
  have "wrap64 (page - 1) = page - 1"
    using assms by (intro wrap64_id; simp)
  with assms show ?thesis by (simp split: sum.split)
qed

lemma binarySearch_loop_step_in_range:
  assumes "0 \<le> left" "left \<le> right" "right < 2 ^ 63 - 1"
  shows "binarySearch_loop (Suc fuel) None checker left right lvp =
     (let mid = left + (right - left) div 2
      in case checker mid of
           Inl err \<Rightarrow> (Failed (ProbeError err), [mid])
         | Inr hasData \<Rightarrow>
             if hasData
             then probed mid (binarySearch_loop fuel None checker (mid + 1) right mid)
             else probed mid (binarySearch_loop fuel None checker left (mid - 1) lvp))"
proof -
  define mid where "mid = left + (right - left) div 2"
  have d: "wrap64 (right - left) = right - left"
    using assms by (intro wrap64_id; simp)
  have q: "quo (right - left) 2 = (right - left) div 2"
    using assms by (simp add: quo_nonneg)
  have mid_range: "left \<le> mid" "mid \<le> right" using assms by (simp_all add: mid_def)
  have m: "wrap64 (left + quo (wrap64 (right - left)) 2) = mid"
    unfolding d q mid_def[symmetric] using mid_range assms by (intro wrap64_id; simp)
  have up: "wrap64 (mid + 1) = mid + 1"
    using mid_range assms by (intro wrap64_id; simp)
  have dn: "wrap64 (mid - 1) = mid - 1"
    using mid_range assms by (intro wrap64_id; simp)
  show ?thesis
    using assms(2) by (simp add: m up dn mid_def[symmetric] Let_def split: sum.split)
qed

lemma thirds:
  fixes d :: int
  assumes "3 < d"
  shows "1 \<le> d div 3" "d div 3 < (2 * d) div 3" "(2 * d) div 3 < d"
  using assms by linarith+

lemma binarySearchConcurrent_loop_step_in_range:
  assumes "0 \<le> left" "right < 2 ^ 63 - 1" "right - left < 2 ^ 62" "3 < right - left"
  shows "binarySearchConcurrent_loop (Suc fuel) bound sched None checker left right lvp =
     (let mid1 = left + (right - left) div 3;
          mid2 = left + (2 * (right - left)) div 3
      in case collect mid1 mid2
                (arrivals (sched mid1 mid2) (mid1, checker mid1) (mid2, checker mid2))
                False False of
           Inl err \<Rightarrow> (Failed (ProbeError err), [mid1, mid2])
         | Inr (mid1HasData, mid2HasData) \<Rightarrow>
             probed mid1 (probed mid2
               (if mid2HasData
                then binarySearchConcurrent_loop fuel bound sched None checker
                       (mid2 + 1) right mid2
                else if mid1HasData
                then binarySearchConcurrent_loop fuel bound sched None checker
                       (mid1 + 1) (mid2 - 1) mid1
                else binarySearchConcurrent_loop fuel bound sched None checker
                       left (mid1 - 1) lvp)))"
proof -
  define d where "d = right - left"
  define mid1 where "mid1 = left + d div 3"
  define mid2 where "mid2 = left + (2 * d) div 3"
  have dr: "3 < d" "d < 2 ^ 62" using assms by (simp_all add: d_def)
  note th = thirds[OF dr(1)]
  have wd: "wrap64 (right - left) = d"
    unfolding d_def[symmetric] using dr by (intro wrap64_id; simp)
  have w2d: "wrap64 (2 * d) = 2 * d"
    using dr by (intro wrap64_id; simp)
  have q1: "quo d 3 = d div 3" and q2: "quo (2 * d) 3 = (2 * d) div 3"
    using dr by (simp_all add: quo_nonneg)
  have r1: "left < mid1" "mid1 < mid2" "mid2 < right"
    using th by (simp_all add: mid1_def mid2_def d_def)
  have m1: "wrap64 (left + d div 3) = mid1"
    unfolding mid1_def[symmetric] using r1 assms by (intro wrap64_id; simp)
  have m2: "wrap64 (left + (2 * d) div 3) = mid2"
    unfolding mid2_def[symmetric] using r1 assms by (intro wrap64_id; simp)
  have w: "wrap64 (mid2 + 1) = mid2 + 1" "wrap64 (mid1 + 1) = mid1 + 1"
          "wrap64 (mid2 - 1) = mid2 - 1" "wrap64 (mid1 - 1) = mid1 - 1"
    using r1 assms by (intro wrap64_id; simp)+
  have le: "left \<le> right" "\<not> d \<le> 3" using dr assms by (simp_all add: d_def)
  show ?thesis
    unfolding d_def[symmetric] mid1_def[symmetric] mid2_def[symmetric] Let_def
    using le
    by (simp add: wd w2d q1 q2 m1 m2 w Let_def split: sum.split prod.split)
qed


lemma binarySearchConcurrent_loop_small:
  assumes "0 \<le> left" "left \<le> right" "right < 2 ^ 63" "right - left \<le> 3"
  shows "binarySearchConcurrent_loop (Suc fuel) bound sched None checker left right lvp =
           scanDown bound checker left lvp right"
proof -
  have "wrap64 (right - left) = right - left"
    using assms by (intro wrap64_id; simp)
  with assms show ?thesis by simp
qed

lemma binarySearchConcurrent_loop_empty:
  "right < left \<Longrightarrow>
   binarySearchConcurrent_loop (Suc fuel) bound sched ctx checker left right lvp =
     (Returned lvp, [])"
  by simp

lemma scanDown_pages:
  "p \<in> set (snd (scanDown fuel checker left lvp page)) \<Longrightarrow>
   0 \<le> left \<Longrightarrow> page < 2 ^ 63 \<Longrightarrow> left \<le> p \<and> p \<le> page"
proof (induction fuel arbitrary: page)
  case 0
  then show ?case by simp
next
  case (Suc fuel)
  show ?case
  proof (cases "left \<le> page")
    case False
    with Suc.prems show ?thesis by simp
  next
    case True
    have "p = page \<or> p \<in> set (snd (scanDown fuel checker left lvp (page - 1)))"
      using Suc.prems(1) unfolding scanDown_step[OF Suc.prems(2) True Suc.prems(3)]
      by (auto split: sum.splits if_splits)
    then show ?thesis
    proof
      assume "p = page" with True show ?thesis by simp
    next
      assume "p \<in> set (snd (scanDown fuel checker left lvp (page - 1)))"
      from Suc.IH[OF this Suc.prems(2)] Suc.prems(3) show ?thesis by linarith
    qed
  qed
qed

lemma binarySearchConcurrent_loop_pages:
  "p \<in> set (snd (binarySearchConcurrent_loop fuel bound sched ctx checker left right lvp)) \<Longrightarrow>
   0 \<le> left \<Longrightarrow> right < 2 ^ 63 - 1 \<Longrightarrow> right - left < 2 ^ 62 \<Longrightarrow>
   left \<le> p \<and> p \<le> right"
proof (induction fuel arbitrary: left right lvp)
  case 0
  then show ?case by simp
next
  case (Suc fuel)
  show ?case
  proof (cases "left \<le> right")
    case False
    with Suc.prems show ?thesis by simp
  next
    case le: True
    show ?thesis
    proof (cases ctx)
      case (Some cerr)
      with Suc.prems le show ?thesis by simp
    next
      case None
      show ?thesis
      proof (cases "right - left \<le> 3")
        case True
        have "p \<in> set (snd (scanDown bound checker left lvp right))"
          using Suc.prems(1) None
            binarySearchConcurrent_loop_small[OF Suc.prems(2) le _ True, of fuel bound sched checker lvp]
            Suc.prems(3) by simp
        from scanDown_pages[OF this Suc.prems(2)] Suc.prems(3) show ?thesis by simp
      next
        case False
        then have wide: "3 < right - left" by simp
        define mid1 where "mid1 = left + (right - left) div 3"
        define mid2 where "mid2 = left + (2 * (right - left)) div 3"
        note th = thirds[OF wide]
        have r: "left < mid1" "mid1 < mid2" "mid2 < right"
          using th by (simp_all add: mid1_def mid2_def)
        note step = binarySearchConcurrent_loop_step_in_range
                      [OF Suc.prems(2) Suc.prems(3) Suc.prems(4) wide,
                       of fuel bound sched checker lvp,
                       unfolded Let_def mid1_def[symmetric] mid2_def[symmetric]]
        have "p = mid1 \<or> p = mid2
              \<or> p \<in> set (snd (binarySearchConcurrent_loop fuel bound sched ctx checker
                                 (mid2 + 1) right mid2))
              \<or> p \<in> set (snd (binarySearchConcurrent_loop fuel bound sched ctx checker
                                 (mid1 + 1) (mid2 - 1) mid1))
              \<or> p \<in> set (snd (binarySearchConcurrent_loop fuel bound sched ctx checker
                                 left (mid1 - 1) lvp))"
          using Suc.prems(1) unfolding None step
          by (auto split: sum.splits prod.splits if_splits)
        then consider "p = mid1" | "p = mid2"
          | (a) "p \<in> set (snd (binarySearchConcurrent_loop fuel bound sched ctx checker
                                 (mid2 + 1) right mid2))"
          | (b) "p \<in> set (snd (binarySearchConcurrent_loop fuel bound sched ctx checker
                                 (mid1 + 1) (mid2 - 1) mid1))"
          | (c) "p \<in> set (snd (binarySearchConcurrent_loop fuel bound sched ctx checker
                                 left (mid1 - 1) lvp))"
          by blast
        then show ?thesis
        proof cases
          case 1 with r show ?thesis by simp
        next
          case 2 with r show ?thesis by simp
        next
          case a
          have "mid2 + 1 \<le> p \<and> p \<le> right"
            using r Suc.prems by (intro Suc.IH[OF a]) linarith+
          with r show ?thesis by linarith
        next
          case b
          have "mid1 + 1 \<le> p \<and> p \<le> mid2 - 1"
            using r Suc.prems by (intro Suc.IH[OF b]) linarith+
          with r show ?thesis by linarith
        next
          case c
          have "left \<le> p \<and> p \<le> mid1 - 1"
            using r Suc.prems by (intro Suc.IH[OF c]) linarith+
          with r show ?thesis by linarith
        qed
      qed
    qed
  qed
qed


lemma findUpperBoundConcurrent_loop_eq:
  "findUpperBoundConcurrent_loop fuel checker maxPage page =
     findUpperBound_loop fuel checker maxPage page"
  by (induction fuel arbitrary: page) (simp_all add: Let_def split: sum.split)

lemma findUpperBoundConcurrent_eq:
  "findUpperBoundConcurrent fuel checker maxPage = findUpperBound fuel checker maxPage"
  by (simp add: findUpperBoundConcurrent_def findUpperBound_def findUpperBoundConcurrent_loop_eq)

lemma defaultMaxPage_range: "int64 maxPage \<Longrightarrow> 1 \<le> defaultMaxPage maxPage \<and> int64 (defaultMaxPage maxPage)"
  by (simp add: defaultMaxPage_def int64_def)

lemma findUpperBound_pages:
  "findUpperBound fuel checker m = (res, tr) \<Longrightarrow> p \<in> set tr \<Longrightarrow> p \<le> m"
  using findUpperBound_loop_pages[of p fuel checker m 1] by (simp add: findUpperBound_def)

lemma upperBound_window:
  assumes "findUpperBound fuel checker m = (Returned ub, tr)" "ub \<noteq> m" "int64 m"
  shows "ub < m" "ub < 2 ^ 63 - 1" "- (2 ^ 63) \<le> ub"
proof -
  have "ub \<le> m \<and> int64 ub"
    using findUpperBound_loop_result[of fuel checker m 1 ub] assms
    by (simp add: findUpperBound_def)
  with assms show "ub < m" "ub < 2 ^ 63 - 1" "- (2 ^ 63) \<le> ub"
    by (simp_all add: int64_def)
qed

lemma binarySearch_pages:
  assumes "binarySearch fuel ctx checker (quo ub 2) ub = (res, tr)" "p \<in> set tr"
          "ub < 2 ^ 63 - 1"
  shows "p \<le> ub"
proof (cases "0 \<le> ub")
  case True
  then have "0 \<le> quo ub 2" by (simp add: quo_nonneg)
  with binarySearch_loop_pages[of p fuel ctx checker "quo ub 2" ub "quo ub 2"] assms
  show ?thesis by (simp add: binarySearch_def)
next
  case False
  then have "ub < quo ub 2" by (simp add: quo2_neg)
  with binarySearch_loop_empty[of ub "quo ub 2" fuel ctx checker "quo ub 2"] assms
  show ?thesis by (simp add: binarySearch_def)
qed

lemma binarySearchConcurrent_loop_no_probe:
  "right < left \<Longrightarrow>
   snd (binarySearchConcurrent_loop fuel bound sched ctx checker left right lvp) = []"
  by (cases fuel) simp_all

lemma binarySearchConcurrent_pages:
  assumes "binarySearchConcurrent fuel sched ctx checker (quo ub 2) ub = (res, tr)"
          "p \<in> set tr" "ub < 2 ^ 63 - 1"
  shows "p \<le> ub"
proof (cases "0 \<le> ub")
  case True
  then have q: "quo ub 2 = ub div 2" by (simp add: quo_nonneg)
  have "0 \<le> ub div 2" "ub - ub div 2 < 2 ^ 62" using True assms(3) by simp_all
  with binarySearchConcurrent_loop_pages
         [of p fuel fuel sched ctx checker "ub div 2" ub "ub div 2"] assms
  show ?thesis by (simp add: binarySearchConcurrent_def q)
next
  case False
  then have "ub < quo ub 2" by (simp add: quo2_neg)
  with binarySearchConcurrent_loop_no_probe
         [of ub "quo ub 2" fuel fuel sched ctx checker "quo ub 2"] assms
  show ?thesis by (simp add: binarySearchConcurrent_def)
qed

lemma FindTotalPages_pages:
  assumes "int64 maxPage" "p \<in> set (snd (FindTotalPages fuel ctx checker maxPage))"
  shows "p \<le> defaultMaxPage maxPage"
proof -
  define m where "m = defaultMaxPage maxPage"
  have m: "1 \<le> m" "int64 m" using defaultMaxPage_range[OF assms(1)] by (simp_all add: m_def)
  obtain res tr where fub: "findUpperBound fuel checker m = (res, tr)" by force
  obtain res' tr' where bs:
    "binarySearch fuel ctx checker (quo (case res of Returned ub \<Rightarrow> ub | _ \<Rightarrow> 0) 2)
       (case res of Returned ub \<Rightarrow> ub | _ \<Rightarrow> 0) = (res', tr')" by force
  have "p = 1 \<or> p \<in> set tr \<or> (\<exists>ub. res = Returned ub \<and> ub \<noteq> m \<and> p \<in> set tr')"
    using assms(2) unfolding FindTotalPages_def m_def[symmetric] Let_def
    using fub bs by (auto split: sum.splits if_splits outcome.splits prod.splits)
  then consider "p = 1" | "p \<in> set tr"
    | ub where "res = Returned ub" "ub \<noteq> m" "p \<in> set tr'" by blast
  then have "p \<le> m"
  proof cases
    case 1 with m show ?thesis by simp
  next
    case 2 with fub show ?thesis by (rule findUpperBound_pages)
  next
    case 3
    note w = upperBound_window[OF fub[unfolded 3(1)] 3(2) m(2)]
    from bs 3 have "binarySearch fuel ctx checker (quo ub 2) ub = (res', tr')" by simp
    from binarySearch_pages[OF this 3(3) w(2)] w(1) show ?thesis by simp
  qed
  then show ?thesis by (simp add: m_def)
qed

lemma FindTotalPagesConcurrent_pages:
  assumes "int64 maxPage"
          "p \<in> set (snd (FindTotalPagesConcurrent fuel sched ctx checker maxPage))"
  shows "p \<le> defaultMaxPage maxPage"
proof -
  define m where "m = defaultMaxPage maxPage"
  have m: "1 \<le> m" "int64 m" using defaultMaxPage_range[OF assms(1)] by (simp_all add: m_def)
  obtain res tr where fub: "findUpperBound fuel checker m = (res, tr)" by force
  obtain res' tr' where bs:
    "binarySearchConcurrent fuel sched ctx checker
       (quo (case res of Returned ub \<Rightarrow> ub | _ \<Rightarrow> 0) 2)
       (case res of Returned ub \<Rightarrow> ub | _ \<Rightarrow> 0) = (res', tr')" by force
  have "p = 1 \<or> p \<in> set tr \<or> (\<exists>ub. res = Returned ub \<and> ub \<noteq> m \<and> p \<in> set tr')"
    using assms(2)
    unfolding FindTotalPagesConcurrent_def m_def[symmetric] Let_def findUpperBoundConcurrent_eq
    using fub bs by (auto split: sum.splits if_splits outcome.splits prod.splits)
  then consider "p = 1" | "p \<in> set tr"
    | ub where "res = Returned ub" "ub \<noteq> m" "p \<in> set tr'" by blast
  then have "p \<le> m"
  proof cases
    case 1 with m show ?thesis by simp
  next
    case 2 with fub show ?thesis by (rule findUpperBound_pages)
  next
    case 3
    note w = upperBound_window[OF fub[unfolded 3(1)] 3(2) m(2)]
    from bs 3 have "binarySearchConcurrent fuel sched ctx checker (quo ub 2) ub = (res', tr')"
      by simp
    from binarySearchConcurrent_pages[OF this 3(3) w(2)] w(1) show ?thesis by simp
  qed
  then show ?thesis by (simp add: m_def)
qed

section \<open>Ceiling normalisation\<close>

text \<open>
  C7. A finder called with a ceiling \<open>c \<le> 0\<close> behaves exactly as the same finder called
  with ceiling 100000: the same result (value or error) and the same sequence of probed
  pages, for every probe, context, scheduler and iteration bound.
\<close>

theorem nonpositive_ceiling_is_default:
  assumes "c \<le> 0"
  shows "FindTotalPages fuel ctx checker c = FindTotalPages fuel ctx checker 100000
       \<and> FindTotalPagesConcurrent fuel sched ctx checker c
           = FindTotalPagesConcurrent fuel sched ctx checker 100000"
  using assms by (simp add: FindTotalPages_def FindTotalPagesConcurrent_def defaultMaxPage_def)

theorem nonpositive_ceiling_is_default_witness:
  "(0::int) \<le> 0
   \<and> FindTotalPages 64 None (pagesUpTo 10) 0 = FindTotalPages 64 None (pagesUpTo 10) 100000
   \<and> FindTotalPagesConcurrent 64 mid1Always None (pagesUpTo 10) 0
       = FindTotalPagesConcurrent 64 mid1Always None (pagesUpTo 10) 100000"
  using nonpositive_ceiling_is_default [of 0 64 None "pagesUpTo 10" mid1Always] by simp

section \<open>The links adapter's answers\<close>

text \<open>
  C9. For every fetcher and page, the probe built by \<open>CreatePageChecker\<close> answers
  \<open>hasData = True\<close> exactly when the fetched links have a non-empty \<open>Self.Href\<close>, and when
  the fetcher fails it answers with that same error.
\<close>

theorem CreatePageChecker_self_link:
  "(\<forall>links. fetcher page = Inr links \<longrightarrow>
      CreatePageChecker fetcher page = Inr (Href (Self links) \<noteq> ''''))
   \<and> (\<forall>err. fetcher page = Inl err \<longrightarrow> CreatePageChecker fetcher page = Inl err)"
  by (simp add: CreatePageChecker_def)

theorem CreatePageChecker_self_link_witness:
  "fetchOnePage 1 = Inr (linksWithSelf ''/api/v4/contacts?page=1'')
   \<and> CreatePageChecker fetchOnePage 1 = Inr True
   \<and> fetchOnePage 2 = Inr (linksWithSelf '''')
   \<and> CreatePageChecker fetchOnePage 2 = Inr False
   \<and> fetchOnePage 3 = Inl ''no such page''
   \<and> CreatePageChecker fetchOnePage 3 = Inl ''no such page''"
  using CreatePageChecker_self_link [of fetchOnePage 1]
        CreatePageChecker_self_link [of fetchOnePage 2]
        CreatePageChecker_self_link [of fetchOnePage 3]
  by (simp add: fetchOnePage_def linksWithSelf_def)

section \<open>Ceiling respect\<close>

text \<open>
  C6. For every probe, context, scheduler and iteration bound, and every ceiling that is a
  Go \<open>int\<close>: neither finder probes a page greater than a positive supplied ceiling, in
  any phase, and for a non-positive supplied ceiling no probed page exceeds 100000.
\<close>

theorem probes_respect_ceiling:
  assumes "int64 maxPage"
  shows "(\<forall>p \<in> set (snd (FindTotalPages fuel ctx checker maxPage)).
            (0 < maxPage \<longrightarrow> p \<le> maxPage) \<and> (maxPage \<le> 0 \<longrightarrow> p \<le> 100000))
       \<and> (\<forall>p \<in> set (snd (FindTotalPagesConcurrent fuel sched ctx checker maxPage)).
            (0 < maxPage \<longrightarrow> p \<le> maxPage) \<and> (maxPage \<le> 0 \<longrightarrow> p \<le> 100000))"
  using FindTotalPages_pages[OF assms, of _ fuel ctx checker]
        FindTotalPagesConcurrent_pages[OF assms, of _ fuel sched ctx checker]
  by (auto simp: defaultMaxPage_def split: if_splits)

theorem probes_respect_ceiling_witness:
  "int64 1000
   \<and> set (snd (FindTotalPages 64 None (pagesUpTo 2000) 1000)) \<subseteq> {..1000}
   \<and> set (snd (FindTotalPagesConcurrent 64 mid1Always None (pagesUpTo 2000) 1000)) \<subseteq> {..1000}"
  using probes_respect_ceiling [of 1000 64 None "pagesUpTo 2000" mid1Always]
  by (simp add: int64_def subset_iff)

section \<open>Running the finders on given inputs\<close>

text \<open>
  One iteration of each loop, for an iteration bound that need not be a numeral.
\<close>

lemma findUpperBound_loop_unfold:
  "findUpperBound_loop fuel checker maxPage page =
     (if fuel = 0 then (OutOfFuel, [])
      else if page < maxPage then
        (let nextPage = wrap64 (page * 2);
             nextPage = (if nextPage > maxPage then maxPage else nextPage)
         in case checker nextPage of
              Inl err \<Rightarrow> (Failed (ProbeError err), [nextPage])
            | Inr hasData \<Rightarrow>
                if \<not> hasData then (Returned nextPage, [nextPage])
                else probed nextPage
                       (findUpperBound_loop (fuel - 1) checker maxPage nextPage))
      else (Returned maxPage, []))"
  by (cases fuel) (simp_all cong: sum.case_cong if_cong)

lemma binarySearch_loop_unfold:
  "binarySearch_loop fuel ctx checker left right lastValidPage =
     (if fuel = 0 then (OutOfFuel, [])
      else if left \<le> right then
        (case ctx of
           Some cerr \<Rightarrow> (Failed (ContextError cerr), [])
         | None \<Rightarrow>
             (let mid = wrap64 (left + quo (wrap64 (right - left)) 2)
              in case checker mid of
                   Inl err \<Rightarrow> (Failed (ProbeError err), [mid])
                 | Inr hasData \<Rightarrow>
                     if hasData
                     then probed mid
                            (binarySearch_loop (fuel - 1) ctx checker (wrap64 (mid + 1))
                               right mid)
                     else probed mid
                            (binarySearch_loop (fuel - 1) ctx checker left (wrap64 (mid - 1))
                               lastValidPage)))
      else (Returned lastValidPage, []))"
  by (cases fuel) (simp_all cong: sum.case_cong option.case_cong if_cong)

lemma scanDown_unfold:
  "scanDown fuel checker left lastValidPage page =
     (if fuel = 0 then (OutOfFuel, [])
      else if page \<ge> left then
        (case checker page of
           Inl err \<Rightarrow> (Failed (ProbeError err), [page])
         | Inr hasData \<Rightarrow>
             if hasData then (Returned page, [page])
             else probed page
                    (scanDown (fuel - 1) checker left lastValidPage (wrap64 (page - 1))))
      else (Returned lastValidPage, []))"
  by (cases fuel) (simp_all cong: sum.case_cong if_cong)

lemma binarySearchConcurrent_loop_unfold:
  "binarySearchConcurrent_loop fuel bound sched ctx checker left right lastValidPage =
     (if fuel = 0 then (OutOfFuel, [])
      else if left \<le> right then
        (case ctx of
           Some cerr \<Rightarrow> (Failed (ContextError cerr), [])
         | None \<Rightarrow>
             if wrap64 (right - left) \<le> 3
             then scanDown bound checker left lastValidPage right
             else
               (let mid1 = wrap64 (left + quo (wrap64 (right - left)) 3);
                    mid2 = wrap64 (left + quo (wrap64 (2 * wrap64 (right - left))) 3);
                    results = arrivals (sched mid1 mid2)
                                (mid1, checker mid1) (mid2, checker mid2)
                in case collect mid1 mid2 results False False of
                     Inl err \<Rightarrow> (Failed (ProbeError err), [mid1, mid2])
                   | Inr (mid1HasData, mid2HasData) \<Rightarrow>
                       probed mid1 (probed mid2
                         (if mid2HasData
                          then binarySearchConcurrent_loop (fuel - 1) bound sched ctx checker
                                 (wrap64 (mid2 + 1)) right mid2
                          else if mid1HasData
                          then binarySearchConcurrent_loop (fuel - 1) bound sched ctx checker
                                 (wrap64 (mid1 + 1)) (wrap64 (mid2 - 1)) mid1
                          else binarySearchConcurrent_loop (fuel - 1) bound sched ctx checker
                                 left (wrap64 (mid1 - 1)) lastValidPage))))
      else (Returned lastValidPage, []))"
  by (cases fuel) (simp_all cong: sum.case_cong option.case_cong if_cong prod.case_cong)

lemma collect_arrivals:
  "mid1 \<noteq> mid2 \<Longrightarrow>
   collect mid1 mid2 (arrivals b (mid1, Inr h1) (mid2, Inr h2)) False False = Inr (h1, h2)"
  by (simp add: arrivals_def)

lemmas run_sequential =
  FindTotalPages_def findUpperBound_def binarySearch_def
  findUpperBound_loop_unfold binarySearch_loop_unfold
  Let_def wrap64_def quo_def probed_def

lemmas run_concurrent =
  FindTotalPagesConcurrent_def findUpperBoundConcurrent_eq findUpperBound_def
  binarySearchConcurrent_def findUpperBound_loop_unfold
  binarySearchConcurrent_loop_unfold scanDown_unfold collect_arrivals
  Let_def wrap64_def quo_def probed_def

lemma pagesUpTo_sequential:
  assumes "2 * n < m" "64 \<le> fuel" "n \<in> {1, 10, 100, 500, 1000}"
  shows "fst (FindTotalPages fuel None (pagesUpTo n) m) = Returned n"
proof -
  have d: "defaultMaxPage m = m" using assms by (auto simp: defaultMaxPage_def)
  from assms(3) consider "n = 1" | "n = 10" | "n = 100" | "n = 500" | "n = 1000" by blast
  then show ?thesis
  proof cases
    case 1 with assms(1,2) show ?thesis by (simp add: run_sequential d pagesUpTo_def)
  next
    case 2 with assms(1,2) show ?thesis by (simp add: run_sequential d pagesUpTo_def)
  next
    case 3 with assms(1,2) show ?thesis by (simp add: run_sequential d pagesUpTo_def)
  next
    case 4 with assms(1,2) show ?thesis by (simp add: run_sequential d pagesUpTo_def)
  next
    case 5 with assms(1,2) show ?thesis by (simp add: run_sequential d pagesUpTo_def)
  qed
qed

lemma pagesUpTo_concurrent:
  assumes "2 * n < m" "64 \<le> fuel" "n \<in> {1, 10, 100, 500, 1000}"
  shows "fst (FindTotalPagesConcurrent fuel sched None (pagesUpTo n) m) = Returned n"
proof -
  have d: "defaultMaxPage m = m" using assms by (auto simp: defaultMaxPage_def)
  from assms(3) consider "n = 1" | "n = 10" | "n = 100" | "n = 500" | "n = 1000" by blast
  then show ?thesis
  proof cases
    case 1 with assms(1,2) show ?thesis by (simp add: run_concurrent d pagesUpTo_def)
  next
    case 2 with assms(1,2) show ?thesis by (simp add: run_concurrent d pagesUpTo_def)
  next
    case 3 with assms(1,2) show ?thesis by (simp add: run_concurrent d pagesUpTo_def)
  next
    case 4 with assms(1,2) show ?thesis by (simp add: run_concurrent d pagesUpTo_def)
  next
    case 5 with assms(1,2) show ?thesis by (simp add: run_concurrent d pagesUpTo_def)
  qed
qed

lemma pagesUpTo_zero:
  "FindTotalPages fuel ctx (pagesUpTo 0) maxPage = (Returned 0, [1])"
  "FindTotalPagesConcurrent fuel sched ctx (pagesUpTo 0) maxPage = (Returned 0, [1])"
  by (simp_all add: FindTotalPages_def FindTotalPagesConcurrent_def pagesUpTo_def)

lemma defaultMaxPage_idem: "defaultMaxPage (defaultMaxPage maxPage) = defaultMaxPage maxPage"
  by (simp add: defaultMaxPage_def)

lemma FindTotalPages_defaultMaxPage:
  "FindTotalPages fuel ctx checker (defaultMaxPage maxPage) =
     FindTotalPages fuel ctx checker maxPage"
  by (simp add: FindTotalPages_def defaultMaxPage_idem)

lemma FindTotalPagesConcurrent_defaultMaxPage:
  "FindTotalPagesConcurrent fuel sched ctx checker (defaultMaxPage maxPage) =
     FindTotalPagesConcurrent fuel sched ctx checker maxPage"
  by (simp add: FindTotalPagesConcurrent_def defaultMaxPage_idem)

section \<open>The sizes of the repository's tests\<close>

text \<open>
  C2. For every boundary \<open>n\<close> in \<open>{0, 1, 10, 100, 500, 1000}\<close>, the probe
  \<open>hasData(page) = (page \<le> n)\<close> and every ceiling that is non-positive (so that the
  default applies) or greater than \<open>2 * n\<close>, both finders return exactly \<open>n\<close> with a
  nil error, whatever the scheduler does, once the iteration bound is at least 64.
\<close>

theorem boundary_found_for_tested_sizes:
  assumes "n \<in> {0, 1, 10, 100, 500, 1000}" "maxPage \<le> 0 \<or> 2 * n < maxPage" "64 \<le> fuel"
  shows "fst (FindTotalPages fuel None (pagesUpTo n) maxPage) = Returned n
       \<and> fst (FindTotalPagesConcurrent fuel sched None (pagesUpTo n) maxPage) = Returned n"
proof (cases "n = 0")
  case True
  then show ?thesis by (simp add: pagesUpTo_zero)
next
  case False
  with assms(1) have n: "n \<in> {1, 10, 100, 500, 1000}" by simp
  then have "n \<le> 1000" by auto
  with assms(2) have m: "2 * n < defaultMaxPage maxPage" by (auto simp: defaultMaxPage_def)
  show ?thesis
    using pagesUpTo_sequential[OF m assms(3) n]
          pagesUpTo_concurrent[OF m assms(3) n, of sched]
    by (simp add: FindTotalPages_defaultMaxPage FindTotalPagesConcurrent_defaultMaxPage)
qed

theorem boundary_found_for_tested_sizes_witness:
  "(500::int) \<in> {0, 1, 10, 100, 500, 1000} \<and> ((10000::int) \<le> 0 \<or> 2 * 500 < (10000::int))
   \<and> (64::nat) \<le> 64
   \<and> fst (FindTotalPages 64 None (pagesUpTo 500) 10000) = Returned 500
   \<and> fst (FindTotalPagesConcurrent 64 mid1Always None (pagesUpTo 500) 10000) = Returned 500"
  using boundary_found_for_tested_sizes [of 500 10000 64 mid1Always] by simp

section \<open>The growth phase stopping at the ceiling\<close>

text \<open>
  C1 says that for a monotone probe with boundary \<open>n\<close>, \<open>1 \<le> n < ceiling\<close>, the
  sequential finder returns \<open>n\<close>. With five pages of data and ceiling 6 the growth phase
  probes 2 and 4, clamps 8 to 6 and finds page 6 empty; \<open>findUpperBound\<close> returns 6, which
  \<open>FindTotalPages\<close> takes for "ceiling reached" and returns 6, a page it has just seen
  to be empty, instead of 5.
\<close>

theorem ceiling_returned_for_empty_ceiling_page:
  "FindTotalPages 64 None (pagesUpTo 5) 6 = (Returned 6, [1, 2, 4, 6])"
  by code_simp

section \<open>Probe counts for an empty and a one-page collection\<close>

text \<open>
  C8, as stated, fails: with one page of data and the default ceiling the sequential finder
  does not issue exactly 2 probes.
\<close>

theorem single_page_takes_four_probes:
  "length (snd (FindTotalPages 64 None (pagesUpTo 1) 100000)) \<noteq> 2"
  by code_simp

text \<open>
  C8, amended. With the probe \<open>hasData(page) = (page \<le> n)\<close> the sequential finder probes
  exactly once (page 1) when \<open>n = 0\<close>, for every ceiling; when \<open>n = 1\<close> and the ceiling is
  non-positive or greater than 2 it probes exactly four times, pages 1, 2, 1, 2: the binary
  search over the closed window from \<open>upperBound/2\<close> to \<open>upperBound\<close> probes both of its
  ends again.
\<close>

theorem probe_count_empty_and_single_page:
  "snd (FindTotalPages fuel None (pagesUpTo 0) maxPage) = [1]
   \<and> ((maxPage \<le> 0 \<or> 2 < maxPage) \<and> 3 \<le> fuel \<longrightarrow>
        snd (FindTotalPages fuel None (pagesUpTo 1) maxPage) = [1, 2, 1, 2])"
proof -
  have "snd (FindTotalPages fuel None (pagesUpTo 1) maxPage) = [1, 2, 1, 2]"
    if "maxPage \<le> 0 \<or> 2 < maxPage" "3 \<le> fuel"
  proof -
    define m where "m = defaultMaxPage maxPage"
    have m: "2 < m" "defaultMaxPage m = m" using that by (auto simp: m_def defaultMaxPage_def)
    have "snd (FindTotalPages fuel None (pagesUpTo 1) m) = [1, 2, 1, 2]"
      using m that(2) by (simp add: run_sequential pagesUpTo_def)
    then show ?thesis by (simp add: m_def FindTotalPages_defaultMaxPage)
  qed
  then show ?thesis by (simp add: pagesUpTo_zero)
qed

theorem probe_count_empty_and_single_page_witness:
  "snd (FindTotalPages 64 None (pagesUpTo 0) 1000) = [1]
   \<and> ((1000::int) \<le> 0 \<or> 2 < (1000::int)) \<and> (3::nat) \<le> 64
   \<and> snd (FindTotalPages 64 None (pagesUpTo 1) 1000) = [1, 2, 1, 2]"
  using probe_count_empty_and_single_page [of 64 1000] by simp

section \<open>Doubling past the range of \<open>int\<close>\<close>

text \<open>
  C10 says that a result with a nil error is 0 only if page 1 had no data, and is otherwise
  at least 1 and at most the ceiling. With the largest \<open>int\<close> as ceiling and a
  collection that has data at every positive page, the growth phase doubles \<open>2^62\<close> to
  \<open>-2^63\<close>, finds that page empty, and both finders return \<open>-2^62\<close> with a nil error.
\<close>

theorem negative_result_beyond_doubling_range:
  "positivePages 1 = Inr True
   \<and> fst (FindTotalPages 64 None positivePages 9223372036854775807)
       = Returned (- 4611686018427387904)
   \<and> fst (FindTotalPagesConcurrent 64 mid1Always None positivePages 9223372036854775807)
       = Returned (- 4611686018427387904)"
  by code_simp

section \<open>Cancellation before the search phase\<close>


section \<open>Probe errors\<close>

text \<open>
  C4, as stated, fails: a probe error at page 2 comes back wrapped with the message
  \<open>failed to find upper bound: \<close>, which does not contain the page number.
\<close>

theorem growth_phase_error_names_no_page:
  "fst (FindTotalPages 64 None (failingAt 2 ''boom'' 10) 1000)
     = Failed (Wrapped ''failed to find upper bound: '' (ProbeError ''boom''))
   \<and> \<not> namesPage (Wrapped ''failed to find upper bound: '' (ProbeError ''boom'')) 2"
  by code_simp

text \<open>
  Every run of a loop either probes only pages that answer without error, or ends with
  the first page whose probe fails and returns that error.
\<close>

lemma cleanRun_probed:
  "checker p = Inr b \<Longrightarrow> cleanRun checker r \<Longrightarrow> cleanRun checker (probed p r)"
  by (simp add: cleanRun_def)

lemma abortedRun_probed:
  assumes "checker p = Inr b" "abortedRun checker r"
  shows "abortedRun checker (probed p r)"
proof -
  from assms(2) obtain pre q e where
    r: "snd r = pre @ [q]" "\<forall>x \<in> set pre. \<exists>b. checker x = Inr b" "checker q = Inl e"
       "fst r = Failed (ProbeError e)"
    unfolding abortedRun_def by blast
  have "snd (probed p r) = (p # pre) @ [q]" using r(1) by simp
  moreover have "\<forall>x \<in> set (p # pre). \<exists>b. checker x = Inr b" using r(2) assms(1) by simp
  ultimately show ?thesis unfolding abortedRun_def using r(3,4) by (metis probed_simps(1))
qed

lemma run_probed:
  "checker p = Inr b \<Longrightarrow> cleanRun checker r \<or> abortedRun checker r \<Longrightarrow>
   cleanRun checker (probed p r) \<or> abortedRun checker (probed p r)"
  using cleanRun_probed abortedRun_probed by blast

lemma abortedRun_single:
  "checker p = Inl e \<Longrightarrow> abortedRun checker (Failed (ProbeError e), [p])"
  unfolding abortedRun_def by (intro exI[of _ "[]"] exI[of _ p] exI[of _ e]) simp

lemma findUpperBound_loop_run:
  "cleanRun checker (findUpperBound_loop fuel checker maxPage page)
   \<or> abortedRun checker (findUpperBound_loop fuel checker maxPage page)"
proof (induction fuel arbitrary: page)
  case 0
  show ?case by (simp add: cleanRun_def)
next
  case (Suc fuel)
  show ?case
  proof (cases "page < maxPage")
    case False
    then show ?thesis by (simp add: cleanRun_def)
  next
    case True
    define nextPage where
      "nextPage = (if wrap64 (page * 2) > maxPage then maxPage else wrap64 (page * 2))"
    show ?thesis
    proof (cases "checker nextPage")
      case (Inl e)
      with True abortedRun_single[of checker nextPage e] show ?thesis
        by (simp add: Let_def nextPage_def[symmetric])
    next
      case (Inr b)
      show ?thesis
      proof (cases b)
        case False
        with True Inr show ?thesis
          by (auto simp: Let_def nextPage_def[symmetric] cleanRun_def)
      next
        case b: True
        from run_probed[OF Inr Suc.IH[of nextPage]] True Inr b show ?thesis
          by (simp add: Let_def nextPage_def[symmetric])
      qed
    qed
  qed
qed

lemma binarySearch_loop_run:
  "cleanRun checker (binarySearch_loop fuel ctx checker left right lvp)
   \<or> abortedRun checker (binarySearch_loop fuel ctx checker left right lvp)"
proof (induction fuel arbitrary: left right lvp)
  case 0
  show ?case by (simp add: cleanRun_def)
next
  case (Suc fuel)
  show ?case
  proof (cases "left \<le> right")
    case False
    then show ?thesis by (simp add: cleanRun_def)
  next
    case le: True
    show ?thesis
    proof (cases ctx)
      case (Some cerr)
      with le show ?thesis by (simp add: cleanRun_def)
    next
      case None
      define mid where "mid = wrap64 (left + quo (wrap64 (right - left)) 2)"
      show ?thesis
      proof (cases "checker mid")
        case (Inl e)
        with le None abortedRun_single[of checker mid e] show ?thesis
          by (simp add: Let_def mid_def[symmetric])
      next
        case (Inr b)
        show ?thesis
        proof (cases b)
          case True
          from run_probed[OF Inr Suc.IH[of "wrap64 (mid + 1)" right mid]] le None Inr True
          show ?thesis by (simp add: Let_def mid_def[symmetric])
        next
          case False
          from run_probed[OF Inr Suc.IH[of left "wrap64 (mid - 1)" lvp]] le None Inr False
          show ?thesis by (simp add: Let_def mid_def[symmetric])
        qed
      qed
    qed
  qed
qed

lemma no_failing_probe:
  "\<forall>q \<in> set tr. \<exists>b. checker q = Inr b \<Longrightarrow> p \<in> set tr \<Longrightarrow> checker p = Inl err \<Longrightarrow> False"
  by fastforce

text \<open>
  The messages of the growth phase and of the binary search contain no digit, so they
  contain the text of no page number; the message of the first probe contains \<open>1\<close>.
\<close>

lemma startsWith_chars: "startsWith s t \<Longrightarrow> set t \<subseteq> set s"
  by (induction s t rule: startsWith.induct) auto

lemma containsText_chars: "containsText s t \<Longrightarrow> set t \<subseteq> set s"
proof (induction s)
  case Nil
  then show ?case using startsWith_chars by fastforce
next
  case (Cons d s)
  then show ?case using startsWith_chars[of "d # s" t] by auto
qed

lemma digit_is_numeral_char: "d < 10 \<Longrightarrow> digit d \<in> set ''0123456789''"
  unfolding digit_def by (intro nth_mem) simp

lemma decimal_has_digit: "\<exists>d<10. digit d \<in> set (decimal n)"
proof (cases "n < 10")
  case True
  then show ?thesis by (subst decimal.simps) auto
next
  case False
  have "n mod 10 < 10" by simp
  moreover have "digit (n mod 10) \<in> set (decimal n)"
    using False by (subst decimal.simps) simp
  ultimately show ?thesis by blast
qed

lemma pageText_has_digit: "\<exists>d<10. digit d \<in> set (pageText page)"
  using decimal_has_digit[of "nat (- page)"] decimal_has_digit[of "nat page"]
  by (auto simp: pageText_def)

lemma message_without_digits:
  assumes "set msg \<inter> set ''0123456789'' = {}"
  shows "\<not> namesPage (Wrapped msg f) page"
proof
  assume "namesPage (Wrapped msg f) page"
  then have "set (pageText page) \<subseteq> set msg" using containsText_chars by simp
  moreover from pageText_has_digit obtain d where "d < 10" "digit d \<in> set (pageText page)"
    by blast
  ultimately have "digit d \<in> set msg" "digit d \<in> set ''0123456789''"
    using digit_is_numeral_char by auto
  with assms show False by blast
qed

lemma growth_message_names_no_page:
  "\<not> namesPage (Wrapped ''failed to find upper bound: '' f) page"
  by (rule message_without_digits) simp

lemma search_message_names_no_page:
  "\<not> namesPage (Wrapped ''binary search failed: '' f) page"
  by (rule message_without_digits) simp

lemma first_message_names_page_1:
  "containsText ''failed to check page 1: '' (pageText 1)"
  by code_simp

text \<open>
  C4, amended. For every probe, context, ceiling and iteration bound: when a probe issued by
  the sequential finder returns an error, that probe is the last one issued, every earlier
  probe answered without error, and the finder returns no boundary but that error, wrapped
  with the message of the phase that issued the probe: \<open>failed to check page 1: \<close> when it
  is the first probe (page 1), \<open>failed to find upper bound: \<close> when \<open>findUpperBound\<close>
  failed with it, \<open>binary search failed: \<close> when \<open>binarySearch\<close> failed with it. The first
  message names the failing page; the other two name no page at all.
\<close>

theorem probe_error_aborts_sequential_search:
  assumes "p \<in> set (snd (FindTotalPages fuel ctx checker maxPage))" "checker p = Inl err"
  shows "\<exists>pre msg.
           FindTotalPages fuel ctx checker maxPage
             = (Failed (Wrapped msg (ProbeError err)), pre @ [p])
         \<and> (\<forall>q \<in> set pre. \<exists>b. checker q = Inr b)
         \<and> ((pre = [] \<and> p = 1 \<and> msg = ''failed to check page 1: ''
               \<and> namesPage (Wrapped msg (ProbeError err)) p)
            \<or> (pre \<noteq> [] \<and> msg = ''failed to find upper bound: ''
               \<and> (\<exists>tr. findUpperBound fuel checker (defaultMaxPage maxPage)
                            = (Failed (ProbeError err), tr)
                        \<and> pre @ [p] = 1 # tr)
               \<and> (\<forall>q. \<not> namesPage (Wrapped msg (ProbeError err)) q))
            \<or> (pre \<noteq> [] \<and> msg = ''binary search failed: ''
               \<and> (\<exists>upperBound tr tr'.
                       findUpperBound fuel checker (defaultMaxPage maxPage)
                         = (Returned upperBound, tr)
                     \<and> upperBound \<noteq> defaultMaxPage maxPage
                     \<and> binarySearch fuel ctx checker (quo upperBound 2) upperBound
                         = (Failed (ProbeError err), tr')
                     \<and> pre @ [p] = 1 # tr @ tr')
               \<and> (\<forall>q. \<not> namesPage (Wrapped msg (ProbeError err)) q)))"
proof -
  define m where "m = defaultMaxPage maxPage"
  show ?thesis
  proof (cases "checker 1")
    case (Inl e1)
    then have r: "FindTotalPages fuel ctx checker maxPage =
                    (Failed (Wrapped ''failed to check page 1: '' (ProbeError e1)), [1])"
      by (simp add: FindTotalPages_def)
    with assms Inl have "p = 1" "e1 = err" by simp_all
    then show ?thesis
      unfolding r using first_message_names_page_1
      by (intro exI[of _ "[]"] exI[of _ "''failed to check page 1: ''"]) simp
  next
    case (Inr h1)
    show ?thesis
    proof (cases h1)
      case False
      with Inr have "FindTotalPages fuel ctx checker maxPage = (Returned 0, [1])"
        by (simp add: FindTotalPages_def)
      with assms Inr show ?thesis by simp
    next
      case True
      have one: "checker 1 = Inr True" using Inr True by simp
      obtain res tr where fub: "findUpperBound fuel checker m = (res, tr)" by force
      have run1: "cleanRun checker (res, tr) \<or> abortedRun checker (res, tr)"
        using findUpperBound_loop_run[of checker fuel m 1] fub by (simp add: findUpperBound_def)
      then show ?thesis
      proof
        assume "abortedRun checker (res, tr)"
        then obtain pre q e where a: "tr = pre @ [q]" "\<forall>x \<in> set pre. \<exists>b. checker x = Inr b"
          "checker q = Inl e" "res = Failed (ProbeError e)"
          unfolding abortedRun_def by auto
        have r: "FindTotalPages fuel ctx checker maxPage =
                   (Failed (Wrapped ''failed to find upper bound: '' (ProbeError e)),
                    (1 # pre) @ [q])"
          using one fub a by (simp add: FindTotalPages_def m_def[symmetric])
        have pre_ok: "\<forall>x \<in> set (1 # pre). \<exists>b. checker x = Inr b" using a(2) one by auto
        have "p = q"
        proof (rule ccontr)
          assume "p \<noteq> q"
          with assms(1) r have "p \<in> set (1 # pre)" by simp
          with pre_ok show False using assms(2) by (metis no_failing_probe)
        qed
        with a(3) assms(2) have "e = err" by simp
        have fub': "findUpperBound fuel checker (defaultMaxPage maxPage)
                      = (Failed (ProbeError err), tr)"
          using fub a(4) \<open>e = err\<close> by (simp add: m_def)
        have tr: "(1 # pre) @ [p] = 1 # tr" using a(1) \<open>p = q\<close> by simp
        show ?thesis
          unfolding r \<open>p = q\<close>[symmetric] \<open>e = err\<close>
          using pre_ok fub' tr growth_message_names_no_page
          by (intro exI[of _ "1 # pre"] exI[of _ "''failed to find upper bound: ''"]) blast
      next
        assume c1: "cleanRun checker (res, tr)"
        then have tr_ok: "\<forall>x \<in> set (1 # tr). \<exists>b. checker x = Inr b"
          using one by (auto simp: cleanRun_def)
        show ?thesis
        proof (cases "\<exists>ub. res = Returned ub \<and> ub \<noteq> m")
          case False
          then have "snd (FindTotalPages fuel ctx checker maxPage) = 1 # tr"
            using one fub by (cases res) (auto simp: FindTotalPages_def m_def[symmetric])
          with assms tr_ok show ?thesis using no_failing_probe by metis
        next
          case True
          then obtain ub where ub: "res = Returned ub" "ub \<noteq> m" by blast
          obtain res' tr' where bs:
            "binarySearch fuel ctx checker (quo ub 2) ub = (res', tr')" by force
          have "cleanRun checker (res', tr') \<or> abortedRun checker (res', tr')"
            using binarySearch_loop_run[of checker fuel ctx "quo ub 2" ub "quo ub 2"] bs
            by (simp add: binarySearch_def)
          then show ?thesis
          proof
            assume "cleanRun checker (res', tr')"
            then have "\<forall>x \<in> set (1 # tr @ tr'). \<exists>b. checker x = Inr b"
              using tr_ok by (auto simp: cleanRun_def)
            moreover have "snd (FindTotalPages fuel ctx checker maxPage) = 1 # tr @ tr'"
              using one fub ub bs by (cases res') (simp_all add: FindTotalPages_def m_def[symmetric])
            ultimately show ?thesis using assms no_failing_probe by metis
          next
            assume "abortedRun checker (res', tr')"
            then obtain pre q e where a: "tr' = pre @ [q]"
              "\<forall>x \<in> set pre. \<exists>b. checker x = Inr b"
              "checker q = Inl e" "res' = Failed (ProbeError e)"
              unfolding abortedRun_def by auto
            have r: "FindTotalPages fuel ctx checker maxPage =
                       (Failed (Wrapped ''binary search failed: '' (ProbeError e)),
                        (1 # tr @ pre) @ [q])"
              using one fub ub bs a by (simp add: FindTotalPages_def m_def[symmetric])
            have pre_ok: "\<forall>x \<in> set (1 # tr @ pre). \<exists>b. checker x = Inr b"
              using tr_ok a(2) by auto
            have "p = q"
            proof (rule ccontr)
              assume "p \<noteq> q"
              with assms(1) r have "p \<in> set (1 # tr @ pre)" by simp
              with pre_ok show False using assms(2) by (metis no_failing_probe)
            qed
            with a(3) assms(2) have "e = err" by simp
            have phase:
              "\<exists>upperBound tr0 tr1.
                 findUpperBound fuel checker (defaultMaxPage maxPage) = (Returned upperBound, tr0)
               \<and> upperBound \<noteq> defaultMaxPage maxPage
               \<and> binarySearch fuel ctx checker (quo upperBound 2) upperBound
                   = (Failed (ProbeError err), tr1)
               \<and> (1 # tr @ pre) @ [p] = 1 # tr0 @ tr1"
              using fub ub bs a(1,4) \<open>e = err\<close> \<open>p = q\<close>
              by (intro exI[of _ ub] exI[of _ tr] exI[of _ tr']) (simp add: m_def)
            show ?thesis
              unfolding r \<open>p = q\<close>[symmetric] \<open>e = err\<close>
              using pre_ok phase search_message_names_no_page
              by (intro exI[of _ "1 # tr @ pre"] exI[of _ "''binary search failed: ''"]) blast
          qed
        qed
      qed
    qed
  qed
qed

theorem probe_error_aborts_sequential_search_witness:
  "12 \<in> set (snd (FindTotalPages 64 None (failingAt 12 ''boom'' 10) 1000))
   \<and> failingAt 12 ''boom'' 10 12 = Inl ''boom''
   \<and> FindTotalPages 64 None (failingAt 12 ''boom'' 10) 1000
       = (Failed (Wrapped ''binary search failed: '' (ProbeError ''boom'')),
          [1, 2, 4, 8, 16, 12])
   \<and> (\<exists>pre msg.
           FindTotalPages 64 None (failingAt 12 ''boom'' 10) 1000
             = (Failed (Wrapped msg (ProbeError ''boom'')), pre @ [12])
         \<and> (\<forall>q \<in> set pre. \<exists>b. failingAt 12 ''boom'' 10 q = Inr b)
         \<and> ((pre = [] \<and> (12::int) = 1 \<and> msg = ''failed to check page 1: ''
               \<and> namesPage (Wrapped msg (ProbeError ''boom'')) 12)
            \<or> (pre \<noteq> [] \<and> msg = ''failed to find upper bound: ''
               \<and> (\<exists>tr. findUpperBound 64 (failingAt 12 ''boom'' 10) (defaultMaxPage 1000)
                            = (Failed (ProbeError ''boom''), tr)
                        \<and> pre @ [12] = 1 # tr)
               \<and> (\<forall>q. \<not> namesPage (Wrapped msg (ProbeError ''boom'')) q))
            \<or> (pre \<noteq> [] \<and> msg = ''binary search failed: ''
               \<and> (\<exists>upperBound tr tr'.
                       findUpperBound 64 (failingAt 12 ''boom'' 10) (defaultMaxPage 1000)
                         = (Returned upperBound, tr)
                     \<and> upperBound \<noteq> defaultMaxPage 1000
                     \<and> binarySearch 64 None (failingAt 12 ''boom'' 10) (quo upperBound 2)
                           upperBound
                         = (Failed (ProbeError ''boom''), tr')
                     \<and> pre @ [12] = 1 # tr @ tr')
               \<and> (\<forall>q. \<not> namesPage (Wrapped msg (ProbeError ''boom'')) q))))"
proof -
  have h1: "12 \<in> set (snd (FindTotalPages 64 None (failingAt 12 ''boom'' 10) 1000))"
    by code_simp
  have h2: "failingAt 12 ''boom'' 10 12 = Inl ''boom''"
    by (simp add: failingAt_def)
  have h3: "FindTotalPages 64 None (failingAt 12 ''boom'' 10) 1000
       = (Failed (Wrapped ''binary search failed: '' (ProbeError ''boom'')),
          [1, 2, 4, 8, 16, 12])"
    by code_simp
  note t = probe_error_aborts_sequential_search [OF h1 h2]
  from h1 h2 h3 t show ?thesis by (intro conjI)
qed

section \<open>Cancellation on entering the search phase\<close>




section \<open>Agreement of the two finders\<close>

text \<open>
  For an error-free probe both search loops keep a window with data just below it and no
  data just above it, and return a page that has data and whose successor has none.
\<close>

lemma probeOf_answers: "\<forall>page. probeOf hasData page = Inr (hasData page)"
  by (simp add: probeOf_def)

lemma half_width:
  fixes d P :: int
  assumes "0 \<le> d" "d + 1 < 2 * P"
  shows "d - d div 2 < P" "d div 2 < P"
  using assms by linarith+

lemma pow_pred: "0 < k \<Longrightarrow> (2::int) ^ k = 2 * 2 ^ (k - 1)"
  by (cases k) simp_all

lemma binarySearch_loop_boundary:
  assumes "1 \<le> lvp" "hasData lvp" "lvp = left \<or> lvp = left - 1"
          "left \<le> right + 1" "\<not> hasData (right + 1)" "right < 2 ^ 63 - 1"
          "right - left + 1 < 2 ^ k" "k < fuel"
          "\<forall>page. checker page = Inr (hasData page)"
  shows "\<exists>b. fst (binarySearch_loop fuel None checker left right lvp) = Returned b
             \<and> hasData b \<and> \<not> hasData (b + 1) \<and> 1 \<le> b"
  using assms
proof (induction fuel arbitrary: left right lvp k)
  case 0
  then show ?case by simp
next
  case (Suc fuel)
  show ?case
  proof (cases "left \<le> right")
    case False
    with Suc.prems have "left = right + 1" by simp
    with Suc.prems have "lvp = right" by (metis add_diff_cancel_right')
    with False Suc.prems show ?thesis by simp
  next
    case True
    note ck = Suc.prems(9)
    define d where "d = right - left"
    define mid where "mid = left + d div 2"
    have l0: "0 \<le> left" using Suc.prems by linarith
    have d0: "0 \<le> d" using True by (simp add: d_def)
    have k0: "0 < k"
    proof (rule ccontr)
      assume "\<not> 0 < k"
      with Suc.prems(7) True show False by simp
    qed
    have w: "d + 1 < 2 * 2 ^ (k - 1)"
      using Suc.prems(7) pow_pred[OF k0] by (simp add: d_def)
    note hw = half_width[OF d0 w]
    have mr: "left \<le> mid" "mid \<le> right" using d0 by (simp_all add: mid_def d_def)
    have k1: "k - 1 < fuel" using Suc.prems(8) k0 by simp
    note step = binarySearch_loop_step_in_range[OF l0 True Suc.prems(6),
        of fuel checker lvp, unfolded Let_def d_def[symmetric] mid_def[symmetric]]
    show ?thesis
    proof (cases "hasData mid")
      case h: True
      have "1 \<le> mid" using Suc.prems mr by linarith
      moreover have "right - (mid + 1) + 1 < 2 ^ (k - 1)"
        using hw(1) by (simp add: mid_def d_def)
      moreover have "mid + 1 \<le> right + 1" using mr by simp
      moreover have "mid = mid + 1 \<or> mid = mid + 1 - 1" by simp
      ultimately have "\<exists>b. fst (binarySearch_loop fuel None checker (mid + 1) right mid)
                   = Returned b \<and> hasData b \<and> \<not> hasData (b + 1) \<and> 1 \<le> b"
        using Suc.IH[of mid "mid + 1" right "k - 1"] h Suc.prems(5,6) k1 ck by blast
      with h show ?thesis unfolding step by (simp add: ck)
    next
      case h: False
      have "mid - 1 - left + 1 < 2 ^ (k - 1)" using hw(2) by (simp add: mid_def)
      moreover have "mid - 1 < 2 ^ 63 - 1" using mr Suc.prems(6) by simp
      moreover have "left \<le> mid - 1 + 1" "\<not> hasData (mid - 1 + 1)" using mr h by simp_all
      ultimately have "\<exists>b. fst (binarySearch_loop fuel None checker left (mid - 1) lvp)
                   = Returned b \<and> hasData b \<and> \<not> hasData (b + 1) \<and> 1 \<le> b"
        using Suc.IH[of lvp left "mid - 1" "k - 1"] Suc.prems(1,2,3) k1 ck by blast
      with h show ?thesis unfolding step by (simp add: ck)
    qed
  qed
qed

lemma scanDown_boundary:
  assumes "1 \<le> lvp" "hasData lvp" "lvp = left \<or> lvp = left - 1"
          "left \<le> page + 1" "\<not> hasData (page + 1)" "page < 2 ^ 63"
          "nat (page - left + 1) < fuel"
          "\<forall>page. checker page = Inr (hasData page)"
  shows "\<exists>b. fst (scanDown fuel checker left lvp page) = Returned b
             \<and> hasData b \<and> \<not> hasData (b + 1) \<and> 1 \<le> b"
  using assms
proof (induction fuel arbitrary: page)
  case 0
  then show ?case by simp
next
  case (Suc fuel)
  show ?case
  proof (cases "left \<le> page")
    case False
    with Suc.prems have "left = page + 1" by simp
    with Suc.prems have "lvp = page" by (metis add_diff_cancel_right')
    with False Suc.prems show ?thesis by simp
  next
    case True
    note ck = Suc.prems(8)
    have l0: "0 \<le> left" using Suc.prems by linarith
    note step = scanDown_step[OF l0 True Suc.prems(6), of fuel checker lvp]
    show ?thesis
    proof (cases "hasData page")
      case h: True
      have "1 \<le> page" using Suc.prems True by linarith
      with h Suc.prems(5) show ?thesis unfolding step by (simp add: ck)
    next
      case h: False
      have "nat (page - 1 - left + 1) < fuel" using Suc.prems(7) True by linarith
      moreover have "left \<le> page - 1 + 1" "\<not> hasData (page - 1 + 1)" "page - 1 < 2 ^ 63"
        using True h Suc.prems(6) by simp_all
      ultimately have "\<exists>b. fst (scanDown fuel checker left lvp (page - 1)) = Returned b
                 \<and> hasData b \<and> \<not> hasData (b + 1) \<and> 1 \<le> b"
        using Suc.IH[of "page - 1"] Suc.prems(1,2,3) ck by blast
      with h show ?thesis unfolding step by (simp add: ck)
    qed
  qed
qed

lemma third_width:
  fixes d P :: int
  assumes "3 < d" "d + 1 < 2 * P"
  shows "d - (2 * d) div 3 < P" "(2 * d) div 3 - d div 3 - 1 < P" "d div 3 < P"
  using assms by linarith+

lemma binarySearchConcurrent_loop_boundary:
  assumes "1 \<le> lvp" "hasData lvp" "lvp = left \<or> lvp = left - 1"
          "left \<le> right + 1" "\<not> hasData (right + 1)" "right \<le> 2 ^ 62"
          "right - left + 1 < 2 ^ k" "k < fuel" "4 < bound"
          "\<forall>page. checker page = Inr (hasData page)"
  shows "\<exists>b. fst (binarySearchConcurrent_loop fuel bound sched None checker left right lvp)
               = Returned b
             \<and> hasData b \<and> \<not> hasData (b + 1) \<and> 1 \<le> b"
  using assms
proof (induction fuel arbitrary: left right lvp k)
  case 0
  then show ?case by simp
next
  case (Suc fuel)
  note ck = Suc.prems(10)
  have l0: "0 \<le> left" using Suc.prems by linarith
  show ?case
  proof (cases "left \<le> right")
    case False
    with Suc.prems have "left = right + 1" by simp
    with Suc.prems have "lvp = right" by (metis add_diff_cancel_right')
    with False Suc.prems show ?thesis by simp
  next
    case le: True
    define d where "d = right - left"
    show ?thesis
    proof (cases "d \<le> 3")
      case True
      have r63: "right < 2 ^ 63" using Suc.prems(6) by simp
      have small: "right - left \<le> 3" using True by (simp add: d_def)
      have "nat (right - left + 1) < bound" using small Suc.prems(9) by linarith
      with scanDown_boundary[of lvp hasData left right bound checker] Suc.prems(1,2,3,4,5) r63 ck
      have "\<exists>b. fst (scanDown bound checker left lvp right) = Returned b
                 \<and> hasData b \<and> \<not> hasData (b + 1) \<and> 1 \<le> b" by blast
      then show ?thesis
        unfolding binarySearchConcurrent_loop_small[OF l0 le r63 small] .
    next
      case False
      then have wide: "3 < right - left" by (simp add: d_def)
      define mid1 where "mid1 = left + (right - left) div 3"
      define mid2 where "mid2 = left + (2 * (right - left)) div 3"
      have k0: "0 < k"
      proof (rule ccontr)
        assume "\<not> 0 < k"
        with Suc.prems(7) le show False by simp
      qed
      have w: "right - left + 1 < 2 * 2 ^ (k - 1)"
        using Suc.prems(7) pow_pred[OF k0] by simp
      note tw = third_width[OF wide w]
      note th = thirds[OF wide]
      have r: "left < mid1" "mid1 < mid2" "mid2 < right"
        using th by (simp_all add: mid1_def mid2_def)
      have k1: "k - 1 < fuel" using Suc.prems(8) k0 by simp
      have l1: "1 \<le> left" using Suc.prems(1,3) by linarith
      have r1: "right < 2 ^ 63 - 1" and r2: "right - left < 2 ^ 62"
        using Suc.prems(6) l1 by simp_all
      have col: "collect mid1 mid2
                   (arrivals (sched mid1 mid2) (mid1, checker mid1) (mid2, checker mid2))
                   False False = Inr (hasData mid1, hasData mid2)"
        using r(2) ck by (simp add: collect_arrivals)
      note step = binarySearchConcurrent_loop_step_in_range[OF l0 r1 r2 wide,
          of fuel bound sched checker lvp,
          unfolded Let_def mid1_def[symmetric] mid2_def[symmetric] col]
      show ?thesis
      proof (cases "hasData mid2")
        case h2: True
        have "1 \<le> mid2" using l0 r by linarith
        moreover have "mid2 = mid2 + 1 \<or> mid2 = mid2 + 1 - 1" by simp
        moreover have "mid2 + 1 \<le> right + 1" using r by simp
        moreover have "right - (mid2 + 1) + 1 < 2 ^ (k - 1)"
          using tw(1) by (simp add: mid2_def)
        ultimately have
          "\<exists>b. fst (binarySearchConcurrent_loop fuel bound sched None checker
                       (mid2 + 1) right mid2) = Returned b
               \<and> hasData b \<and> \<not> hasData (b + 1) \<and> 1 \<le> b"
          using Suc.IH[of mid2 "mid2 + 1" right "k - 1"] h2 Suc.prems(5,6,9) k1 ck by blast
        with h2 show ?thesis unfolding step by simp
      next
        case h2: False
        show ?thesis
        proof (cases "hasData mid1")
          case h1: True
          have "1 \<le> mid1" using l0 r by linarith
          moreover have "mid1 = mid1 + 1 \<or> mid1 = mid1 + 1 - 1" by simp
          moreover have "mid1 + 1 \<le> mid2 - 1 + 1" using r by simp
          moreover have "\<not> hasData (mid2 - 1 + 1)" using h2 by simp
          moreover have "mid2 - 1 \<le> 2 ^ 62" using r Suc.prems(6) by simp
          moreover have "mid2 - 1 - (mid1 + 1) + 1 < 2 ^ (k - 1)"
            using tw(2) by (simp add: mid1_def mid2_def)
          ultimately have
            "\<exists>b. fst (binarySearchConcurrent_loop fuel bound sched None checker
                         (mid1 + 1) (mid2 - 1) mid1) = Returned b
                 \<and> hasData b \<and> \<not> hasData (b + 1) \<and> 1 \<le> b"
            using Suc.IH[of mid1 "mid1 + 1" "mid2 - 1" "k - 1"] h1 Suc.prems(9) k1 ck by blast
          with h1 h2 show ?thesis unfolding step by simp
        next
          case h1: False
          have "left \<le> mid1 - 1 + 1" using r by simp
          moreover have "\<not> hasData (mid1 - 1 + 1)" using h1 by simp
          moreover have "mid1 - 1 \<le> 2 ^ 62" using r Suc.prems(6) by simp
          moreover have "mid1 - 1 - left + 1 < 2 ^ (k - 1)"
            using tw(3) by (simp add: mid1_def)
          ultimately have
            "\<exists>b. fst (binarySearchConcurrent_loop fuel bound sched None checker
                         left (mid1 - 1) lvp) = Returned b
                 \<and> hasData b \<and> \<not> hasData (b + 1) \<and> 1 \<le> b"
            using Suc.IH[of lvp left "mid1 - 1" "k - 1"] Suc.prems(1,2,3,9) k1 ck by blast
          with h1 h2 show ?thesis unfolding step by simp
        qed
      qed
    qed
  qed
qed

lemma boundary_unique:
  assumes "monotoneProbe hasData" "1 \<le> b" "hasData b" "\<not> hasData (b + 1)"
          "1 \<le> c" "hasData c" "\<not> hasData (c + 1)"
  shows "b = c"
proof -
  have no: "\<not> hasData q" if "1 \<le> p" "\<not> hasData (p + 1)" "p < q" for p q
  proof (cases "q = p + 1")
    case True
    with that show ?thesis by simp
  next
    case False
    with that have "1 \<le> p + 1" "p + 1 < q" by simp_all
    with assms(1) that(2) show ?thesis unfolding monotoneProbe_def by blast
  qed
  show ?thesis
  proof (rule ccontr)
    assume "b \<noteq> c"
    then consider "b < c" | "c < b" by linarith
    then show False
    proof cases
      case 1
      from no[OF assms(2,4) 1] assms(6) show False by simp
    next
      case 2
      from no[OF assms(5,7) 2] assms(3) show False by simp
    qed
  qed
qed

lemma findUpperBound_loop_at_ceiling:
  "fst (findUpperBound_loop fuel checker m m) = Returned ub \<Longrightarrow> ub = m"
  by (cases fuel) simp_all

lemma doubling_in_range:
  assumes "i \<le> 61"
  shows "wrap64 (2 ^ i * 2) = 2 * 2 ^ i" "(1::int) \<le> 2 ^ i" "(2::int) ^ i \<le> 2 ^ 61"
proof -
  define p :: int where "p = 2 ^ i"
  have le: "p \<le> 2 ^ 61" unfolding p_def using assms by (intro power_increasing) simp_all
  have ge: "1 \<le> p" unfolding p_def by simp
  have "wrap64 (p * 2) = p * 2" using le ge by (intro wrap64_id; simp)
  then show "wrap64 (2 ^ i * 2) = 2 * 2 ^ i" by (simp add: p_def)
  show "(1::int) \<le> 2 ^ i" "(2::int) ^ i \<le> 2 ^ 61" using le ge by (simp_all add: p_def)
qed

lemma findUpperBound_loop_stops:
  assumes "findUpperBound_loop fuel checker m page = (Returned ub, tr)" "ub \<noteq> m" "int64 m"
          "\<forall>page. checker page = Inr (hasData page)"
          "(\<exists>i\<le>62. page = 2 ^ i \<and> hasData page)
           \<or> (2 ^ 62 < m \<and> (page = - (2 ^ 63) \<or> page = 0))"
  shows "(\<exists>i\<le>61. hasData (2 ^ i) \<and> ub = 2 * 2 ^ i \<and> \<not> hasData ub)
         \<or> (2 ^ 62 < m \<and> (ub = - (2 ^ 63) \<or> ub = 0))"
  using assms
proof (induction fuel arbitrary: page tr)
  case 0
  then show ?case by simp
next
  case (Suc fuel)
  note ck = Suc.prems(4)
  have lt: "page < m"
  proof (rule ccontr)
    assume "\<not> page < m"
    with Suc.prems(1,2) show False by simp
  qed
  define np0 where "np0 = wrap64 (page * 2)"
  define np where "np = (if np0 > m then m else np0)"
  have cnp: "checker np = Inr (hasData np)" using ck by blast
  have run: "(if \<not> hasData np then (Returned np, [np])
              else probed np (findUpperBound_loop fuel checker m np)) = (Returned ub, tr)"
    using Suc.prems(1)
    unfolding findUpperBound_loop.simps Let_def np0_def[symmetric] np_def[symmetric]
    using lt cnp by simp
  have np0_cases:
    "(\<exists>i\<le>61. page = 2 ^ i \<and> hasData page \<and> np0 = 2 * 2 ^ i)
     \<or> (2 ^ 62 < m \<and> (np0 = - (2 ^ 63) \<or> np0 = 0))"
    using Suc.prems(5)
  proof (elim disjE exE conjE)
    fix i :: nat
    assume i: "i \<le> 62" "page = 2 ^ i" "hasData page"
    show ?thesis
    proof (cases "i = 62")
      case True
      with i lt have "2 ^ 62 < m" "np0 = - (2 ^ 63)" by (simp_all add: np0_def wrap64_def)
      then show ?thesis by simp
    next
      case False
      with i have "i \<le> 61" by simp
      with doubling_in_range(1)[OF this] i show ?thesis unfolding np0_def by blast
    qed
  next
    assume "2 ^ 62 < m" "page = - (2 ^ 63)"
    then show ?thesis by (simp add: np0_def wrap64_def)
  next
    assume "2 ^ 62 < m" "page = 0"
    then show ?thesis by (simp add: np0_def wrap64_def)
  qed
  show ?case
  proof (cases "hasData np")
    case False
    with run have ub: "ub = np" by simp
    with Suc.prems(2) have "np = np0" by (simp add: np_def split: if_splits)
    with ub False np0_cases show ?thesis by auto
  next
    case True
    with run have "fst (probed np (findUpperBound_loop fuel checker m np)) = Returned ub"
      by simp
    then have rec_fst: "fst (findUpperBound_loop fuel checker m np) = Returned ub" by simp
    then obtain tr' where rec: "findUpperBound_loop fuel checker m np = (Returned ub, tr')"
      by (metis prod.collapse)
    have "np \<noteq> m"
    proof
      assume "np = m"
      with rec_fst findUpperBound_loop_at_ceiling[of fuel checker m ub] Suc.prems(2)
      show False by simp
    qed
    then have eq: "np = np0" by (simp add: np_def split: if_splits)
    have "(\<exists>i\<le>62. np = 2 ^ i \<and> hasData np)
           \<or> (2 ^ 62 < m \<and> (np = - (2 ^ 63) \<or> np = 0))"
      using np0_cases
    proof (elim disjE exE conjE)
      fix i :: nat
      assume "i \<le> 61" "np0 = 2 * 2 ^ i"
      then have "Suc i \<le> 62" "np = 2 ^ Suc i" using eq by simp_all
      with True show ?thesis by blast
    qed (use eq in simp_all)
    from Suc.IH[OF rec Suc.prems(2,3) ck this] show ?thesis .
  qed
qed

lemma findUpperBound_loop_completes:
  assumes "1 \<le> page" "m \<le> 2 ^ 62" "m \<le> page * 2 ^ k" "k < fuel"
          "\<forall>page. checker page = Inr (hasData page)"
  shows "\<exists>ub. fst (findUpperBound_loop fuel checker m page) = Returned ub"
  using assms
proof (induction fuel arbitrary: page k)
  case 0
  then show ?case by simp
next
  case (Suc fuel)
  note ck = Suc.prems(5)
  show ?case
  proof (cases "page < m")
    case False
    then show ?thesis by simp
  next
    case True
    have k0: "0 < k"
    proof (rule ccontr)
      assume "\<not> 0 < k"
      with Suc.prems(3) True show False by simp
    qed
    have w: "wrap64 (page * 2) = 2 * page"
    proof -
      have "wrap64 (page * 2) = page * 2"
        using Suc.prems(1,2) True by (intro wrap64_id; simp)
      then show ?thesis by simp
    qed
    define np where "np = (if 2 * page > m then m else 2 * page)"
    have np1: "1 \<le> np" using Suc.prems(1) True by (simp add: np_def)
    have "m \<le> np * 2 ^ (k - 1)"
    proof (cases "2 * page > m")
      case gt: True
      have "m * 1 \<le> m * 2 ^ (k - 1)"
        using Suc.prems(1) True by (intro mult_left_mono) simp_all
      with gt show ?thesis by (simp add: np_def)
    next
      case False
      with Suc.prems(3) pow_pred[OF k0] show ?thesis by (simp add: np_def mult.assoc)
    qed
    moreover have "k - 1 < fuel" using Suc.prems(4) k0 by simp
    ultimately have "\<exists>ub. fst (findUpperBound_loop fuel checker m np) = Returned ub"
      using Suc.IH[of np "k - 1"] np1 Suc.prems(2) ck by blast
    moreover have "checker np = Inr (hasData np)" using ck by blast
    ultimately show ?thesis using True
      by (simp add: Let_def w np_def[symmetric])
  qed
qed

lemma search_phases_agree:
  assumes mono: "monotoneProbe hasData"
      and ck: "\<forall>page. checker page = Inr (hasData page)"
      and one: "hasData 1"
      and fub: "findUpperBound fuel checker m = (Returned ub, tr)"
      and ne: "ub \<noteq> m" and m: "int64 m" and fuel: "64 \<le> fuel"
  shows "fst (binarySearch fuel ctx checker (quo ub 2) ub)
           = fst (binarySearchConcurrent fuel sched ctx checker (quo ub 2) ub)
       \<and> (ctx = None \<and> m \<le> 2 ^ 62 \<longrightarrow>
            (\<exists>b. fst (binarySearch fuel ctx checker (quo ub 2) ub) = Returned b
                 \<and> hasData b \<and> \<not> hasData (b + 1) \<and> 1 \<le> b))"
proof -
  obtain k where k: "fuel = Suc k" using fuel by (cases fuel) simp_all
  have start: "(\<exists>i\<le>62. (1::int) = 2 ^ i \<and> hasData 1)
               \<or> (2 ^ 62 < m \<and> ((1::int) = - (2 ^ 63) \<or> (1::int) = 0))"
    using one by (intro disjI1 exI[of _ 0]) simp
  from findUpperBound_loop_stops[OF fub[unfolded findUpperBound_def] ne m ck start]
  consider (normal) i where "i \<le> 61" "hasData (2 ^ i)" "ub = 2 * 2 ^ i" "\<not> hasData ub"
    | (neg) "2 ^ 62 < m" "ub = - (2 ^ 63)"
    | (zero) "2 ^ 62 < m" "ub = 0"
    by blast
  then show ?thesis
  proof cases
    case normal
    define pg :: int where "pg = 2 ^ i"
    have pg: "1 \<le> pg" "pg \<le> 2 ^ 61"
      using doubling_in_range(2,3)[OF normal(1)] by (simp_all add: pg_def)
    have ub: "ub = 2 * pg" using normal(3) by (simp add: pg_def)
    have q: "quo (2 * pg) 2 = pg" using pg by (simp add: quo_nonneg)
    have hpg: "hasData pg" using normal(2) by (simp add: pg_def)
    show ?thesis
    proof (cases ctx)
      case (Some c)
      then show ?thesis
        using pg by (simp add: q ub binarySearch_def binarySearchConcurrent_def k)
    next
      case None
      have right: "\<not> hasData (2 * pg + 1)"
      proof -
        have "1 \<le> 2 * pg" "2 * pg < 2 * pg + 1" using pg by simp_all
        with mono normal(4) show ?thesis unfolding monotoneProbe_def ub by blast
      qed
      have a: "pg = pg \<or> pg = pg - 1" "pg \<le> 2 * pg + 1" "2 * pg < 2 ^ 63 - 1"
              "2 * pg - pg + 1 < 2 ^ 62" "2 * pg \<le> 2 ^ 62"
        using pg by simp_all
      have f: "62 < fuel" "4 < fuel" using fuel by simp_all
      from binarySearch_loop_boundary[OF pg(1) hpg a(1,2) right a(3,4) f(1) ck]
      obtain b where b: "fst (binarySearch_loop fuel None checker pg (2 * pg) pg) = Returned b"
        "hasData b" "\<not> hasData (b + 1)" "1 \<le> b" by blast
      from binarySearchConcurrent_loop_boundary
             [OF pg(1) hpg a(1,2) right a(5,4) f(1) f(2) ck, of sched]
      obtain c where c:
        "fst (binarySearchConcurrent_loop fuel fuel sched None checker pg (2 * pg) pg)
           = Returned c"
        "hasData c" "\<not> hasData (c + 1)" "1 \<le> c" by blast
      have "b = c" using boundary_unique[OF mono b(4,2,3) c(4,2,3)] .
      with b c(1) None show ?thesis
        by (simp add: q ub binarySearch_def binarySearchConcurrent_def)
    qed
  next
    case neg
    show ?thesis
      using neg by (simp add: quo_def binarySearch_def binarySearchConcurrent_def k)
  next
    case zero
    have c0: "checker 0 = Inr (hasData 0)" using ck by blast
    show ?thesis
    proof (cases ctx)
      case (Some c)
      then show ?thesis
        using zero by (simp add: quo_def binarySearch_def binarySearchConcurrent_def k)
    next
      case None
      show ?thesis
      proof (cases "hasData 0")
        case True
        with zero fuel None show ?thesis
          by (simp add: binarySearch_def binarySearchConcurrent_def c0
                binarySearch_loop_unfold binarySearchConcurrent_loop_unfold scanDown_unfold
                wrap64_def quo_def Let_def)
      next
        case False
        with zero fuel None show ?thesis
          by (simp add: binarySearch_def binarySearchConcurrent_def c0
                binarySearch_loop_unfold binarySearchConcurrent_loop_unfold scanDown_unfold
                wrap64_def quo_def Let_def)
      qed
    qed
  qed
qed

lemma FindTotalPages_search_phase:
  assumes "checker 1 = Inr True"
          "findUpperBound fuel checker (defaultMaxPage maxPage) = (Returned ub, tr)"
          "ub \<noteq> defaultMaxPage maxPage"
  shows "fst (FindTotalPages fuel ctx checker maxPage) =
           (case fst (binarySearch fuel ctx checker (quo ub 2) ub) of
              Failed err \<Rightarrow> Failed (Wrapped ''binary search failed: '' err)
            | Returned lastPage \<Rightarrow> Returned lastPage
            | OutOfFuel \<Rightarrow> OutOfFuel)"
  using assms by (simp add: FindTotalPages_def split: prod.split outcome.split)

lemma FindTotalPagesConcurrent_search_phase:
  assumes "checker 1 = Inr True"
          "findUpperBound fuel checker (defaultMaxPage maxPage) = (Returned ub, tr)"
          "ub \<noteq> defaultMaxPage maxPage"
  shows "fst (FindTotalPagesConcurrent fuel sched ctx checker maxPage) =
           (case fst (binarySearchConcurrent fuel sched ctx checker (quo ub 2) ub) of
              Failed err \<Rightarrow> Failed (Wrapped ''binary search failed: '' err)
            | Returned lastPage \<Rightarrow> Returned lastPage
            | OutOfFuel \<Rightarrow> OutOfFuel)"
  using assms
  by (simp add: FindTotalPagesConcurrent_def findUpperBoundConcurrent_eq
           split: prod.split outcome.split)

lemma FindTotalPages_without_search:
  assumes "findUpperBound fuel checker (defaultMaxPage maxPage) = (res, tr)"
          "\<not> (\<exists>ub. checker 1 = Inr True \<and> res = Returned ub \<and> ub \<noteq> defaultMaxPage maxPage)"
  shows "fst (FindTotalPages fuel ctx checker maxPage)
           = fst (FindTotalPagesConcurrent fuel sched ctx checker maxPage)"
    and "checker 1 = Inr False \<Longrightarrow> fst (FindTotalPages fuel ctx checker maxPage) = Returned 0"
    and "checker 1 = Inr True \<Longrightarrow> res = Returned ub \<Longrightarrow>
           fst (FindTotalPages fuel ctx checker maxPage) = Returned (defaultMaxPage maxPage)"
proof -
  note defs = FindTotalPages_def FindTotalPagesConcurrent_def findUpperBoundConcurrent_eq Let_def
  show "fst (FindTotalPages fuel ctx checker maxPage)
           = fst (FindTotalPagesConcurrent fuel sched ctx checker maxPage)"
  proof (cases "checker 1")
    case (Inl err)
    then show ?thesis by (simp add: defs)
  next
    case (Inr h)
    show ?thesis
    proof (cases h)
      case False
      with Inr show ?thesis by (simp add: defs)
    next
      case True
      with Inr assms show ?thesis by (cases res) (simp_all add: defs)
    qed
  qed
  show "fst (FindTotalPages fuel ctx checker maxPage) = Returned 0" if "checker 1 = Inr False"
    using that by (simp add: defs)
  show "fst (FindTotalPages fuel ctx checker maxPage) = Returned (defaultMaxPage maxPage)"
    if "checker 1 = Inr True" "res = Returned ub"
    using that assms by (simp add: defs)
qed

text \<open>
  C3. For every error-free probe that is monotone on the positive pages, every ceiling that
  is a Go \<open>int\<close>, every context and every scheduler, \<open>FindTotalPages\<close> and
  \<open>FindTotalPagesConcurrent\<close> return the same result once the iteration bound is at least
  64; and with an open context and a ceiling of at most \<open>2^62\<close> that result is a page
  number, so the agreement is not one of two runs that never end.
\<close>

theorem finders_agree_on_monotone_probes:
  assumes "monotoneProbe hasData" "int64 maxPage" "64 \<le> fuel"
  shows "fst (FindTotalPages fuel ctx (probeOf hasData :: 'e PageChecker) maxPage)
           = fst (FindTotalPagesConcurrent fuel sched ctx (probeOf hasData) maxPage)
       \<and> (ctx = None \<and> defaultMaxPage maxPage \<le> 2 ^ 62 \<longrightarrow>
            (\<exists>lastPage. fst (FindTotalPages fuel ctx (probeOf hasData :: 'e PageChecker) maxPage)
                          = Returned lastPage))"
proof -
  define checker :: "'e PageChecker" where "checker = probeOf hasData"
  define m where "m = defaultMaxPage maxPage"
  have ck: "\<forall>page. checker page = Inr (hasData page)"
    by (simp add: checker_def probeOf_def)
  have m: "1 \<le> m" "int64 m" using defaultMaxPage_range[OF assms(2)] by (simp_all add: m_def)
  obtain res tr where fub: "findUpperBound fuel checker m = (res, tr)" by force
  have c1: "checker 1 = Inr (hasData 1)" using ck by blast
  have complete: "\<exists>ub. res = Returned ub" if "m \<le> 2 ^ 62"
  proof -
    have "m \<le> 1 * 2 ^ 62" "62 < fuel" using that assms(3) by simp_all
    from findUpperBound_loop_completes[OF _ that this ck] fub
    show ?thesis by (simp add: findUpperBound_def)
  qed
  have "fst (FindTotalPages fuel ctx checker maxPage)
           = fst (FindTotalPagesConcurrent fuel sched ctx checker maxPage)
       \<and> (ctx = None \<and> m \<le> 2 ^ 62 \<longrightarrow>
            (\<exists>lastPage. fst (FindTotalPages fuel ctx checker maxPage) = Returned lastPage))"
  proof (cases "\<exists>ub. checker 1 = Inr True \<and> res = Returned ub \<and> ub \<noteq> m")
    case True
    then obtain ub where ub: "checker 1 = Inr True" "res = Returned ub" "ub \<noteq> m" by blast
    with c1 have one: "hasData 1" by simp
    note fub' = fub[unfolded ub(2)]
    note agree = search_phases_agree[OF assms(1) ck one fub' ub(3) m(2) assms(3), of ctx sched]
    note s = FindTotalPages_search_phase[OF ub(1) fub'[unfolded m_def] ub(3)[unfolded m_def], of ctx]
    note c = FindTotalPagesConcurrent_search_phase
               [OF ub(1) fub'[unfolded m_def] ub(3)[unfolded m_def], of sched ctx]
    from agree have eq: "fst (binarySearch fuel ctx checker (quo ub 2) ub)
                           = fst (binarySearchConcurrent fuel sched ctx checker (quo ub 2) ub)"
      by blast
    have "\<exists>lastPage. fst (FindTotalPages fuel ctx checker maxPage) = Returned lastPage"
      if "ctx = None" "m \<le> 2 ^ 62"
    proof -
      from agree that obtain b where
        "fst (binarySearch fuel ctx checker (quo ub 2) ub) = Returned b" by blast
      then show ?thesis unfolding s by simp
    qed
    then show ?thesis unfolding s c eq by blast
  next
    case False
    note w = FindTotalPages_without_search[OF fub[unfolded m_def] False[unfolded m_def]]
    show ?thesis
    proof (cases "hasData 1")
      case h1: False
      with c1 have "checker 1 = Inr False" by simp
      from w(2)[OF this, of ctx] w(1)[of ctx sched] show ?thesis by blast
    next
      case h1: True
      with c1 have one: "checker 1 = Inr True" by simp
      have "\<exists>lastPage. fst (FindTotalPages fuel ctx checker maxPage) = Returned lastPage"
        if "m \<le> 2 ^ 62"
      proof -
        from complete[OF that] obtain ub where "res = Returned ub" by blast
        from w(3)[OF one this, of ctx] show ?thesis by blast
      qed
      with w(1)[of ctx sched] show ?thesis by blast
    qed
  qed
  then show ?thesis by (simp add: checker_def m_def)
qed

theorem finders_agree_on_monotone_probes_witness:
  "monotoneProbe (hasDataUpTo 100) \<and> int64 1000 \<and> (64::nat) \<le> 64
   \<and> fst (FindTotalPages 64 None (probeOf (hasDataUpTo 100) :: string PageChecker) 1000)
       = fst (FindTotalPagesConcurrent 64 mid1Always None (probeOf (hasDataUpTo 100)) 1000)
   \<and> (\<exists>lastPage. fst (FindTotalPages 64 None (probeOf (hasDataUpTo 100) :: string PageChecker)
                         1000) = Returned lastPage)"
proof -
  have h1: "monotoneProbe (hasDataUpTo 100)"
    by (simp add: monotoneProbe_def hasDataUpTo_def)
  have h2: "int64 1000" by (simp add: int64_def)
  have h3: "(64::nat) \<le> 64" by simp
  have h4: "defaultMaxPage 1000 \<le> 2 ^ 62" by (simp add: defaultMaxPage_def)
  show ?thesis
    using finders_agree_on_monotone_probes
            [OF h1 h2 h3, of None mid1Always, where ?'e = string] h1 h2 h3 h4
    by blast
qed

section \<open>Results while the doubling stays in range\<close>

text \<open>
  A loop returns the best-known page it was given or a page of its window.
\<close>

lemma binarySearch_loop_value:
  "fst (binarySearch_loop fuel ctx checker left right lvp) = Returned v \<Longrightarrow>
   0 \<le> left \<Longrightarrow> right < 2 ^ 63 - 1 \<Longrightarrow> v = lvp \<or> (left \<le> v \<and> v \<le> right)"
proof (induction fuel arbitrary: left right lvp)
  case 0
  then show ?case by simp
next
  case (Suc fuel)
  show ?case
  proof (cases "left \<le> right")
    case False
    with Suc.prems show ?thesis by simp
  next
    case le: True
    show ?thesis
    proof (cases ctx)
      case (Some cerr)
      with Suc.prems le show ?thesis by simp
    next
      case None
      define mid where "mid = left + (right - left) div 2"
      have mr: "left \<le> mid" "mid \<le> right" using le by (simp_all add: mid_def)
      note step = binarySearch_loop_step_in_range[OF Suc.prems(2) le Suc.prems(3),
          of fuel checker lvp, unfolded Let_def mid_def[symmetric]]
      from Suc.prems(1) have
        "fst (binarySearch_loop fuel None checker (mid + 1) right mid) = Returned v
         \<or> fst (binarySearch_loop fuel None checker left (mid - 1) lvp) = Returned v"
        unfolding None step by (auto split: sum.splits if_splits)
      then show ?thesis
      proof
        assume a: "fst (binarySearch_loop fuel None checker (mid + 1) right mid) = Returned v"
        have "v = mid \<or> (mid + 1 \<le> v \<and> v \<le> right)"
          using Suc.IH[of "mid + 1" right mid] a mr Suc.prems(2,3) unfolding None by simp
        with mr show ?thesis by linarith
      next
        assume a: "fst (binarySearch_loop fuel None checker left (mid - 1) lvp) = Returned v"
        have "v = lvp \<or> (left \<le> v \<and> v \<le> mid - 1)"
          using Suc.IH[of left "mid - 1" lvp] a mr Suc.prems(2,3) unfolding None by simp
        with mr show ?thesis by linarith
      qed
    qed
  qed
qed

lemma scanDown_value:
  "fst (scanDown fuel checker left lvp page) = Returned v \<Longrightarrow>
   0 \<le> left \<Longrightarrow> page < 2 ^ 63 \<Longrightarrow> v = lvp \<or> (left \<le> v \<and> v \<le> page)"
proof (induction fuel arbitrary: page)
  case 0
  then show ?case by simp
next
  case (Suc fuel)
  show ?case
  proof (cases "left \<le> page")
    case False
    with Suc.prems show ?thesis by simp
  next
    case True
    from Suc.prems(1) have
      "v = page \<or> fst (scanDown fuel checker left lvp (page - 1)) = Returned v"
      unfolding scanDown_step[OF Suc.prems(2) True Suc.prems(3)]
      by (auto split: sum.splits if_splits)
    then show ?thesis
    proof
      assume "v = page" with True show ?thesis by simp
    next
      assume a: "fst (scanDown fuel checker left lvp (page - 1)) = Returned v"
      have "v = lvp \<or> (left \<le> v \<and> v \<le> page - 1)"
        using Suc.IH[of "page - 1"] a Suc.prems(2,3) by simp
      then show ?thesis by linarith
    qed
  qed
qed

lemma binarySearchConcurrent_loop_value:
  "fst (binarySearchConcurrent_loop fuel bound sched ctx checker left right lvp) = Returned v \<Longrightarrow>
   0 \<le> left \<Longrightarrow> right < 2 ^ 63 - 1 \<Longrightarrow> right - left < 2 ^ 62 \<Longrightarrow>
   v = lvp \<or> (left \<le> v \<and> v \<le> right)"
proof (induction fuel arbitrary: left right lvp)
  case 0
  then show ?case by simp
next
  case (Suc fuel)
  show ?case
  proof (cases "left \<le> right")
    case False
    with Suc.prems show ?thesis by simp
  next
    case le: True
    show ?thesis
    proof (cases ctx)
      case (Some cerr)
      with Suc.prems le show ?thesis by simp
    next
      case None
      show ?thesis
      proof (cases "right - left \<le> 3")
        case True
        have r63: "right < 2 ^ 63" using Suc.prems(3) by simp
        have "fst (scanDown bound checker left lvp right) = Returned v"
          using Suc.prems(1) None
            binarySearchConcurrent_loop_small[OF Suc.prems(2) le r63 True,
              of fuel bound sched checker lvp]
          by simp
        from scanDown_value[OF this Suc.prems(2) r63] show ?thesis .
      next
        case False
        then have wide: "3 < right - left" by simp
        define mid1 where "mid1 = left + (right - left) div 3"
        define mid2 where "mid2 = left + (2 * (right - left)) div 3"
        note th = thirds[OF wide]
        have r: "left < mid1" "mid1 < mid2" "mid2 < right"
          using th by (simp_all add: mid1_def mid2_def)
        note step = binarySearchConcurrent_loop_step_in_range
                      [OF Suc.prems(2) Suc.prems(3) Suc.prems(4) wide,
                       of fuel bound sched checker lvp,
                       unfolded Let_def mid1_def[symmetric] mid2_def[symmetric]]
        have "fst (binarySearchConcurrent_loop fuel bound sched ctx checker
                     (mid2 + 1) right mid2) = Returned v
              \<or> fst (binarySearchConcurrent_loop fuel bound sched ctx checker
                     (mid1 + 1) (mid2 - 1) mid1) = Returned v
              \<or> fst (binarySearchConcurrent_loop fuel bound sched ctx checker
                     left (mid1 - 1) lvp) = Returned v"
          using Suc.prems(1) unfolding None step
          by (auto split: sum.splits prod.splits if_splits)
        then consider
            (a) "fst (binarySearchConcurrent_loop fuel bound sched ctx checker
                   (mid2 + 1) right mid2) = Returned v"
          | (b) "fst (binarySearchConcurrent_loop fuel bound sched ctx checker
                   (mid1 + 1) (mid2 - 1) mid1) = Returned v"
          | (c) "fst (binarySearchConcurrent_loop fuel bound sched ctx checker
                   left (mid1 - 1) lvp) = Returned v"
          by blast
        then show ?thesis
        proof cases
          case a
          have "v = mid2 \<or> (mid2 + 1 \<le> v \<and> v \<le> right)"
            using r Suc.prems by (intro Suc.IH[OF a]) linarith+
          with r show ?thesis by linarith
        next
          case b
          have "v = mid1 \<or> (mid1 + 1 \<le> v \<and> v \<le> mid2 - 1)"
            using r Suc.prems by (intro Suc.IH[OF b]) linarith+
          with r show ?thesis by linarith
        next
          case c
          have "v = lvp \<or> (left \<le> v \<and> v \<le> mid1 - 1)"
            using r Suc.prems by (intro Suc.IH[OF c]) linarith+
          with r show ?thesis by linarith
        qed
      qed
    qed
  qed
qed

lemma findUpperBound_loop_value:
  "fst (findUpperBound_loop fuel checker m page) = Returned ub \<Longrightarrow>
   1 \<le> page \<Longrightarrow> m \<le> 2 ^ 62 \<Longrightarrow> ub = m \<or> (2 \<le> ub \<and> ub < m)"
proof (induction fuel arbitrary: page)
  case 0
  then show ?case by simp
next
  case (Suc fuel)
  show ?case
  proof (cases "page < m")
    case False
    with Suc.prems show ?thesis by simp
  next
    case True
    have w: "wrap64 (page * 2) = 2 * page"
    proof -
      have "wrap64 (page * 2) = page * 2"
        using Suc.prems(2,3) True by (intro wrap64_id; simp)
      then show ?thesis by simp
    qed
    define np where "np = (if 2 * page > m then m else 2 * page)"
    have np: "np = m \<or> (2 \<le> np \<and> np < m)" "1 \<le> np"
      using Suc.prems(2) True by (auto simp: np_def)
    from Suc.prems(1) True have
      "ub = np \<or> fst (findUpperBound_loop fuel checker m np) = Returned ub"
      by (auto simp: Let_def w np_def[symmetric] split: sum.splits if_splits)
    then show ?thesis
    proof
      assume "ub = np" with np show ?thesis by simp
    next
      assume "fst (findUpperBound_loop fuel checker m np) = Returned ub"
      from Suc.IH[OF this np(2) Suc.prems(3)] show ?thesis .
    qed
  qed
qed

text \<open>
  For a ceiling of at most \<open>2^62\<close> the growth phase cannot overflow. Then, for every
  probe, a result with a nil error is 0 exactly when page 1 had no data, and lies between 1
  and the ceiling when page 1 had data.
\<close>

lemma search_result_returned:
  "(case r of Failed err \<Rightarrow> Failed (Wrapped msg err)
            | Returned lastPage \<Rightarrow> Returned lastPage
            | OutOfFuel \<Rightarrow> OutOfFuel) = Returned v \<Longrightarrow> r = Returned v"
  by (cases r) simp_all

lemma results_within_doubling_range:
  assumes "int64 maxPage" "defaultMaxPage maxPage \<le> 2 ^ 62"
          "fst (FindTotalPages fuel ctx checker maxPage) = Returned v
           \<or> fst (FindTotalPagesConcurrent fuel sched ctx checker maxPage) = Returned v"
  shows "(v = 0 \<longleftrightarrow> checker 1 = Inr False)
       \<and> (checker 1 = Inr True \<longrightarrow> 1 \<le> v \<and> v \<le> defaultMaxPage maxPage)"
proof -
  define m where "m = defaultMaxPage maxPage"
  have m: "1 \<le> m" "m \<le> 2 ^ 62" using defaultMaxPage_range[OF assms(1)] assms(2)
    by (simp_all add: m_def)
  obtain res tr where fub: "findUpperBound fuel checker m = (res, tr)" by force
  note defs = FindTotalPages_def FindTotalPagesConcurrent_def findUpperBoundConcurrent_eq Let_def
  show ?thesis
  proof (cases "checker 1")
    case (Inl err)
    with assms(3) show ?thesis by (simp add: defs)
  next
    case (Inr h)
    show ?thesis
    proof (cases h)
      case False
      with Inr assms(3) show ?thesis by (simp add: defs)
    next
      case True
      with Inr have one: "checker 1 = Inr True" by simp
      from assms(3) one fub obtain ub where res: "res = Returned ub"
        by (cases res) (simp_all add: defs m_def[symmetric])
      from findUpperBound_loop_value[of fuel checker m 1 ub] fub res m(2)
      have ubr: "ub = m \<or> (2 \<le> ub \<and> ub < m)" by (simp add: findUpperBound_def)
      have "1 \<le> v \<and> v \<le> m"
      proof (cases "ub = m")
        case True
        with assms(3) one fub res have "v = m" by (simp add: defs m_def[symmetric])
        with m show ?thesis by simp
      next
        case False
        with ubr have ub: "2 \<le> ub" "ub < m" by simp_all
        have q: "quo ub 2 = ub div 2" using ub by (simp add: quo_nonneg)
        have w: "1 \<le> ub div 2" "0 \<le> ub div 2" "ub < 2 ^ 63 - 1" "ub - ub div 2 < 2 ^ 62"
          using ub m(2) by simp_all
        note s = FindTotalPages_search_phase
                   [OF one fub[unfolded res m_def] False[unfolded m_def], of ctx]
        note c = FindTotalPagesConcurrent_search_phase
                   [OF one fub[unfolded res m_def] False[unfolded m_def], of sched ctx]
        from assms(3) have
          "fst (binarySearch fuel ctx checker (quo ub 2) ub) = Returned v
           \<or> fst (binarySearchConcurrent fuel sched ctx checker (quo ub 2) ub) = Returned v"
          unfolding s c using search_result_returned by blast
        then have "v = ub div 2 \<or> (ub div 2 \<le> v \<and> v \<le> ub)"
        proof
          assume "fst (binarySearch fuel ctx checker (quo ub 2) ub) = Returned v"
          then show ?thesis
            using binarySearch_loop_value[of fuel ctx checker "ub div 2" ub "ub div 2" v] w
            by (simp add: binarySearch_def q)
        next
          assume "fst (binarySearchConcurrent fuel sched ctx checker (quo ub 2) ub) = Returned v"
          then show ?thesis
            using binarySearchConcurrent_loop_value
                    [of fuel fuel sched ctx checker "ub div 2" ub "ub div 2" v] w
            by (simp add: binarySearchConcurrent_def q)
        qed
        with w ub show ?thesis by linarith
      qed
      with one show ?thesis by (simp add: m_def)
    qed
  qed
qed

text \<open>
  When the growth phase of the sequential finder stops at an empty page other than the
  ceiling, the binary search returns the boundary of a monotone probe.
\<close>

lemma boundary_found_below_ceiling:
  assumes "monotoneProbe hasData" "1 \<le> n" "hasData n" "\<not> hasData (n + 1)"
      and "\<forall>page. checker page = Inr (hasData page)"
      and "int64 maxPage" "defaultMaxPage maxPage \<le> 2 ^ 62" "64 \<le> fuel"
      and "findUpperBound fuel checker (defaultMaxPage maxPage) = (Returned ub, tr)"
      and "ub \<noteq> defaultMaxPage maxPage"
  shows "fst (FindTotalPages fuel None checker maxPage) = Returned n"
proof -
  have one: "hasData 1"
  proof (rule ccontr)
    assume no: "\<not> hasData 1"
    show False
    proof (cases "n = 1")
      case True
      with no assms(3) show ?thesis by simp
    next
      case False
      with assms(2) have "1 < n" by simp
      with assms(1) no assms(3) show ?thesis unfolding monotoneProbe_def by force
    qed
  qed
  then have c1: "checker 1 = Inr True" using assms(5) by simp
  have m: "int64 (defaultMaxPage maxPage)" using defaultMaxPage_range[OF assms(6)] by simp
  from search_phases_agree[OF assms(1,5) one assms(9,10) m assms(8), of None] assms(7)
  obtain b where b: "fst (binarySearch fuel None checker (quo ub 2) ub) = Returned b"
    "hasData b" "\<not> hasData (b + 1)" "1 \<le> b" by blast
  have "b = n" using boundary_unique[OF assms(1) b(4,2,3) assms(2,3,4)] .
  with b(1) show ?thesis
    unfolding FindTotalPages_search_phase[OF c1 assms(9,10)] by simp
qed

end
